theory Spec2Isabelle
  imports Main "HOL-Library.Word"
begin

section \<open>Floor codec (floor_num_handler, index_handler)\<close>

text \<open>
  The four programs carry the same two helpers. A C string is modelled as a
  \<open>string\<close> without its terminator. \<open>strtol\<close> is the C library routine in base 10:
  it skips white space, reads an optional sign and then the longest run of
  decimal digits; it reports where it stopped, and the callers only test whether
  that is the start of the input (no digits read). The result is clamped to the
  range of a 64-bit \<open>long\<close>.
\<close>

definition isspace :: "char \<Rightarrow> bool" where
  "isspace c = ((of_char c :: nat) = 32 \<or> (9 \<le> (of_char c :: nat) \<and> (of_char c :: nat) \<le> 13))"

definition isdigit :: "char \<Rightarrow> bool" where
  "isdigit c = (48 \<le> (of_char c :: nat) \<and> (of_char c :: nat) \<le> 57)"

definition digit_value :: "char \<Rightarrow> int" where
  "digit_value c = int (of_char c) - 48"

definition digits_value :: "string \<Rightarrow> int" where
  "digits_value ds = foldl (\<lambda>a c. 10 * a + digit_value c) 0 ds"

definition LONG_MAX :: int where
  "LONG_MAX = 2 ^ 63 - 1"

definition LONG_MIN :: int where
  "LONG_MIN = - (2 ^ 63)"

definition strtol :: "string \<Rightarrow> int \<times> nat" where
  "strtol s =
     (let ws = takeWhile isspace s;
          s1 = dropWhile isspace s;
          neg = (s1 \<noteq> [] \<and> hd s1 = CHR ''-'');
          signed = (s1 \<noteq> [] \<and> (hd s1 = CHR ''-'' \<or> hd s1 = CHR ''+''));
          s2 = (if signed then tl s1 else s1);
          ds = takeWhile isdigit s2
      in if ds = [] then (0, 0)
         else (max LONG_MIN (min LONG_MAX (if neg then - digits_value ds else digits_value ds)),
               length ws + (if signed then 1 else 0) + length ds))"

text \<open>
  \<open>floor_num_handler\<close> returns 0 and leaves \<open>*out\<close> alone on failure, and returns 1
  with the index in \<open>*out\<close> on success: \<open>None\<close> and \<open>Some index\<close> here.
\<close>

definition floor_num_handler :: "string \<Rightarrow> int option" where
  "floor_num_handler f =
     (if f = [] then None
      else if hd f = CHR ''b'' \<or> hd f = CHR ''B'' then
        (case strtol (tl f) of
           (i, e) \<Rightarrow> if e = 0 \<or> i < 1 \<or> i > 99 then None else Some (- i))
      else
        (case strtol f of
           (i, e) \<Rightarrow> if e = 0 \<or> i < 1 \<or> i > 999 then None else Some i))"

text \<open>\<open>printf\<close>'s \<open>%d\<close>, and \<open>snprintf\<close> into a buffer of four bytes, which keeps at
  most three characters.\<close>

fun dec_nat :: "nat \<Rightarrow> string" where
  "dec_nat n = (if n < 10 then [char_of (48 + n)]
                else dec_nat (n div 10) @ [char_of (48 + n mod 10)])"

declare dec_nat.simps [simp del]

definition show_int :: "int \<Rightarrow> string" where
  "show_int i = (if i < 0 then CHR ''-'' # dec_nat (nat (- i)) else dec_nat (nat i))"

definition index_handler :: "int \<Rightarrow> string" where
  "index_handler index =
     (if index < 0 then take 3 (CHR ''B'' # show_int (- index))
      else take 3 (show_int index))"

text \<open>
  The floor labels of the data model, following the specification's words: a
  decimal string denoting 1..999, or \<open>B\<close> followed by a decimal string denoting
  1..99. A decimal string is a non-empty run of digits; it may start with zeros.
  \<open>leading_zero\<close> tells the labels whose digits start with a zero, and
  \<open>canonical_decimal\<close> the decimal strings that do not.
\<close>

definition decimal_string :: "string \<Rightarrow> bool" where
  "decimal_string ds = (ds \<noteq> [] \<and> list_all isdigit ds)"

definition canonical_decimal :: "string \<Rightarrow> bool" where
  "canonical_decimal ds = (ds \<noteq> [] \<and> list_all isdigit ds \<and> hd ds \<noteq> CHR ''0'')"

definition valid_floor_label :: "string \<Rightarrow> bool" where
  "valid_floor_label l =
     (case l of
        [] \<Rightarrow> False
      | c # t \<Rightarrow>
          if c = CHR ''B'' then decimal_string t \<and> 1 \<le> digits_value t \<and> digits_value t \<le> 99
          else decimal_string l \<and> 1 \<le> digits_value l \<and> digits_value l \<le> 999)"

definition leading_zero :: "string \<Rightarrow> bool" where
  "leading_zero l =
     (case l of
        [] \<Rightarrow> False
      | c # t \<Rightarrow> if c = CHR ''B'' then t \<noteq> [] \<and> hd t = CHR ''0'' else c = CHR ''0'')"

text \<open>
  The strings that can be accepted: after an optional \<open>B\<close> or \<open>b\<close> come optional
  white space, an optional plus sign and a decimal string, which ends the string
  or is followed by a character that is not a digit; the decimal string denotes
  the floor number, within 1..99 after the letter and within 1..999 without it.
\<close>

definition lax_numeral :: "string \<Rightarrow> int \<Rightarrow> bool" where
  "lax_numeral body n =
     (\<exists>ws sg ds rest.
        body = ws @ sg @ ds @ rest \<and> list_all isspace ws \<and> (sg = [] \<or> sg = ''+'') \<and>
        decimal_string ds \<and> (rest = [] \<or> \<not> isdigit (hd rest)) \<and> digits_value ds = n)"

definition accepted_form :: "string \<Rightarrow> int \<Rightarrow> bool" where
  "accepted_form f i =
     (case f of
        [] \<Rightarrow> False
      | c # t \<Rightarrow>
          if c = CHR ''b'' \<or> c = CHR ''B'' then lax_numeral t (- i) \<and> 1 \<le> - i \<and> - i \<le> 99
          else lax_numeral f i \<and> 1 \<le> i \<and> i \<le> 999)"

section \<open>The shared car block\<close>

text \<open>
  Modelled from the spec: the header shared.h that declares \<open>car_shared_mem\<close> is not
  among the sources. The fields are those the programs use; the flags and the
  \<open>safety_system\<close> counter are bytes (the car casts the counter to \<open>uint8_t\<close>). The
  mutex and the condition variable carry no data.
\<close>

record car_shared_mem =
  current_floor :: string
  destination_floor :: string
  status :: string
  open_button :: "8 word"
  close_button :: "8 word"
  safety_system :: "8 word"
  door_obstruction :: "8 word"
  overload :: "8 word"
  emergency_stop :: "8 word"
  individual_service_mode :: "8 word"
  emergency_mode :: "8 word"

section \<open>Safety monitor (safety.c)\<close>

datatype notice = StopPressed | OverloadTripped | ConsistencyError

text \<open>The validation at the end of the monitor's loop body (the five locals and the
  final test), with the notice it prints.\<close>

definition is_valid_status :: "car_shared_mem \<Rightarrow> bool" where
  "is_valid_status sh =
     (status sh = ''Closed'' \<or> status sh = ''Opening'' \<or> status sh = ''Open'' \<or>
      status sh = ''Closing'' \<or> status sh = ''Between'')"

definition are_valid_fields :: "car_shared_mem \<Rightarrow> bool" where
  "are_valid_fields sh =
     ((open_button sh = 0 \<or> open_button sh = 1) \<and>
      (close_button sh = 0 \<or> close_button sh = 1) \<and>
      (door_obstruction sh = 0 \<or> door_obstruction sh = 1) \<and>
      (overload sh = 0 \<or> overload sh = 1) \<and>
      (emergency_stop sh = 0 \<or> emergency_stop sh = 1) \<and>
      (individual_service_mode sh = 0 \<or> individual_service_mode sh = 1) \<and>
      (emergency_mode sh = 0 \<or> emergency_mode sh = 1))"

definition is_valid_obstruction :: "car_shared_mem \<Rightarrow> bool" where
  "is_valid_obstruction sh =
     (door_obstruction sh = 1 \<or> (status sh = ''Closing'' \<or> status sh = ''Opening''))"

definition validate :: "car_shared_mem \<Rightarrow> car_shared_mem \<times> notice option" where
  "validate sh =
     (let valid_cur_floor = (floor_num_handler (current_floor sh) \<noteq> None);
          valid_dst_floor = (floor_num_handler (destination_floor sh) \<noteq> None)
      in if emergency_mode sh \<noteq> 1 \<and>
            (\<not> valid_cur_floor \<or> \<not> valid_dst_floor \<or> \<not> is_valid_status sh \<or>
             \<not> are_valid_fields sh \<or> \<not> is_valid_obstruction sh)
         then (sh\<lparr>emergency_mode := 1\<rparr>, Some ConsistencyError)
         else (sh, None))"

text \<open>One pass of the monitor's loop after the condition variable woke it.\<close>

definition safety_wakeup :: "car_shared_mem \<Rightarrow> car_shared_mem \<times> notice option" where
  "safety_wakeup sh0 =
     (let sh1 = (if safety_system sh0 \<noteq> 1 then sh0\<lparr>safety_system := 1\<rparr> else sh0);
          sh2 = (if status sh1 = ''Closing'' \<and> door_obstruction sh1 = 1
                 then sh1\<lparr>status := ''Opening''\<rparr> else sh1)
      in if emergency_stop sh2 = 1 \<and> emergency_mode sh2 = 0
         then (sh2\<lparr>emergency_mode := 1, emergency_stop := 0\<rparr>, Some StopPressed)
         else if overload sh2 = 1 \<and> emergency_mode sh2 = 0
         then (sh2\<lparr>emergency_mode := 1\<rparr>, Some OverloadTripped)
         else validate sh2)"

text \<open>Invariants 1 to 4 of the data model, as the claim words them. The parse of
  invariant 2 is the monitor's own \<open>floor_num_handler\<close>.\<close>

definition invariants_1_to_4 :: "car_shared_mem \<Rightarrow> bool" where
  "invariants_1_to_4 sh =
     (is_valid_status sh \<and>
      floor_num_handler (current_floor sh) \<noteq> None \<and>
      floor_num_handler (destination_floor sh) \<noteq> None \<and>
      are_valid_fields sh \<and>
      (if door_obstruction sh = 1 then status sh = ''Opening'' \<or> status sh = ''Closing''
       else True))"

definition idle_car :: car_shared_mem where
  "idle_car = \<lparr>current_floor = ''1'', destination_floor = ''1'', status = ''Closed'',
     open_button = 0, close_button = 0, safety_system = 1, door_obstruction = 0,
     overload = 0, emergency_stop = 0, individual_service_mode = 0, emergency_mode = 0\<rparr>"

section \<open>The car's transmit thread (car.c)\<close>

text \<open>
  A \<open>struct timespec\<close>, and \<open>abs_timeout_ms\<close>, which reads the clock and adds the
  delay with one carry from the nanoseconds; the reading of the clock is a
  parameter here. The fields are integers without a bound (the source's are 64 bits
  wide, which no reading of the clock and no delay of 32 bits exceeds).
\<close>

record timespec =
  tv_sec :: int
  tv_nsec :: int

definition abs_timeout_ms :: "timespec \<Rightarrow> nat \<Rightarrow> timespec" where
  "abs_timeout_ms ts ms =
     (let sec = tv_sec ts + int (ms div 1000);
          nsec = tv_nsec ts + int (ms mod 1000) * 1000000
      in if nsec \<ge> 1000000000 then \<lparr>tv_sec = sec + 1, tv_nsec = nsec - 1000000000\<rparr>
         else \<lparr>tv_sec = sec, tv_nsec = nsec\<rparr>)"

text \<open>The test of the transmit timeout: \<open>now\<close> is not before \<open>timeout\<close>.\<close>

definition timeout_reached :: "timespec \<Rightarrow> timespec \<Rightarrow> bool" where
  "timeout_reached now timeout =
     (tv_sec now > tv_sec timeout \<or>
      (tv_sec now = tv_sec timeout \<and> tv_nsec now \<ge> tv_nsec timeout))"

text \<open>
  What the thread works on: the shared block, the globals \<open>g_tx_flag\<close> and
  \<open>g_shutdown\<close>, its local \<open>transmit_timeout\<close>, and the control link, which is up or
  down (a write on a link that is down fails) and carries the frames \<open>sent\<close>.
  \<open>clock_reads\<close> counts the thread's calls of \<open>clock_gettime\<close>: the functions below
  take the clock as a function \<open>clock\<close> from that count to the reading. The block is
  written by this thread alone here: the car's other threads and the other
  processes are silent, but for what the wake-ups of the wait loop tell.
\<close>

record transmit_state =
  g_shm :: car_shared_mem
  g_tx_flag :: int
  g_shutdown :: int
  transmit_timeout :: timespec
  clock_reads :: nat
  link_up :: bool
  sent :: "string list"

definition clock_gettime :: "(nat \<Rightarrow> timespec) \<Rightarrow> transmit_state \<Rightarrow> timespec \<times> transmit_state" where
  "clock_gettime clock st = (clock (clock_reads st), st\<lparr>clock_reads := clock_reads st + 1\<rparr>)"

text \<open>\<open>transmit_timeout = abs_timeout_ms(g_delay_ms)\<close>.\<close>

definition reset_timeout :: "nat \<Rightarrow> (nat \<Rightarrow> timespec) \<Rightarrow> transmit_state \<Rightarrow> transmit_state" where
  "reset_timeout delay clock st =
     (case clock_gettime clock st of
        (now, st1) \<Rightarrow> st1\<lparr>transmit_timeout := abs_timeout_ms now delay\<rparr>)"

text \<open>\<open>send_frame\<close>: the length, cut at 16 bits, and the message; -1 when a write
  fails.\<close>

definition send_frame :: "string \<Rightarrow> transmit_state \<Rightarrow> int \<times> transmit_state" where
  "send_frame msg st =
     (if link_up st then (0, st\<lparr>sent := sent st @ [take 65535 msg]\<rparr>) else (- 1, st))"

text \<open>\<open>post_status\<close>: the three fields are copied with \<open>strncpy\<close> into buffers of 8, 4
  and 4 bytes, and the frame is formatted into a buffer of 64.\<close>

definition post_status :: "transmit_state \<Rightarrow> int \<times> transmit_state" where
  "post_status st =
     send_frame
       (take 63 (''STATUS '' @ take 7 (status (g_shm st)) @ '' '' @
                 take 3 (current_floor (g_shm st)) @ '' '' @
                 take 3 (destination_floor (g_shm st))))
       st"

text \<open>
  How one call of \<open>pthread_cond_timedwait\<close> in the wait loop comes back: the
  timeout has passed, or the call has returned for no reason, with both globals as
  they were (\<open>Timed_out\<close>); \<open>flag_status\<close> has set \<open>g_tx_flag\<close> and signalled
  (\<open>Status_flagged\<close>); the handler of SIGINT has set \<open>g_shutdown\<close> and broadcast
  (\<open>Interrupted\<close>).
\<close>

datatype wakeup = Timed_out | Status_flagged | Interrupted

definition pthread_cond_timedwait :: "wakeup \<Rightarrow> transmit_state \<Rightarrow> transmit_state" where
  "pthread_cond_timedwait w st =
     (case w of
        Timed_out \<Rightarrow> st
      | Status_flagged \<Rightarrow> st\<lparr>g_tx_flag := 1\<rparr>
      | Interrupted \<Rightarrow> st\<lparr>g_shutdown := 1\<rparr>)"

text \<open>
  The wait loop \<open>while (!g_tx_flag) { pthread_cond_timedwait(...); if (g_shutdown)
  break; }\<close> over the wake-ups to come. It returns the state, the wake-ups left, and
  whether the thread is still in the loop when the wake-ups have run out.
\<close>

fun wait_loop :: "wakeup list \<Rightarrow> transmit_state \<Rightarrow> transmit_state \<times> wakeup list \<times> bool" where
  "wait_loop [] st = (st, [], g_tx_flag st = 0)"
| "wait_loop (w # ws) st =
     (if g_tx_flag st \<noteq> 0 then (st, w # ws, False)
      else
        (let st1 = pthread_cond_timedwait w st
         in if g_shutdown st1 \<noteq> 0 then (st1, ws, False) else wait_loop ws st1))"

text \<open>
  The rest of a pass of the thread's loop, in four parts; each returns the state
  and whether the thread leaves the loop. First, the status frame if the flag was
  raised, and the reset of the timeout after it.
\<close>

definition send_status :: "nat \<Rightarrow> (nat \<Rightarrow> timespec) \<Rightarrow> int \<Rightarrow> transmit_state \<Rightarrow> transmit_state \<times> bool" where
  "send_status delay clock raised st =
     (if raised \<noteq> 0 then
        (case post_status st of
           (r, st1) \<Rightarrow> if r < 0 then (st1, True) else (reset_timeout delay clock st1, False))
      else (st, False))"

text \<open>
  Second, the safety counter: when the clock has reached the transmit timeout, the
  counter is read as an \<open>int\<close>, incremented, and written back as a byte; at 3 or
  more the car declares an emergency, sends the frame and leaves the loop, and
  below 3 the timeout is reset.
\<close>

definition safety_tick :: "nat \<Rightarrow> (nat \<Rightarrow> timespec) \<Rightarrow> transmit_state \<Rightarrow> transmit_state \<times> bool" where
  "safety_tick delay clock st =
     (let val = uint (safety_system (g_shm st)) + 1;
          st1 = st\<lparr>g_shm := (g_shm st)\<lparr>safety_system := word_of_int val\<rparr>\<rparr>
      in if val \<ge> 3 then
           (snd (send_frame ''EMERGENCY'' (st1\<lparr>g_shm := (g_shm st1)\<lparr>emergency_mode := 1\<rparr>\<rparr>)), True)
         else (reset_timeout delay clock st1, False))"

definition timeout_check :: "nat \<Rightarrow> (nat \<Rightarrow> timespec) \<Rightarrow> transmit_state \<Rightarrow> transmit_state \<times> bool" where
  "timeout_check delay clock st =
     (case clock_gettime clock st of
        (now, st1) \<Rightarrow>
          if timeout_reached now (transmit_timeout st1) then safety_tick delay clock st1
          else (st1, False))"

text \<open>Third, the check of the two modes that ends every pass of the loop.\<close>

definition mode_check :: "transmit_state \<Rightarrow> transmit_state \<times> bool" where
  "mode_check st =
     (if individual_service_mode (g_shm st) \<noteq> 0
        then (snd (send_frame ''INDIVIDUAL SERVICE'' st), True)
      else if emergency_mode (g_shm st) \<noteq> 0 then (snd (send_frame ''EMERGENCY'' st), True)
      else (st, False))"

text \<open>The pass from the capture of the flag, after the wait loop, to its end.\<close>

definition after_wait :: "nat \<Rightarrow> (nat \<Rightarrow> timespec) \<Rightarrow> transmit_state \<Rightarrow> transmit_state \<times> bool" where
  "after_wait delay clock st =
     (let raised = g_tx_flag st;
          st1 = st\<lparr>g_tx_flag := 0\<rparr>
      in if g_shutdown st1 \<noteq> 0 then (st1, True)
         else
           (case send_status delay clock raised st1 of
              (st2, True) \<Rightarrow> (st2, True)
            | (st2, False) \<Rightarrow>
                (case timeout_check delay clock st2 of
                   (st3, True) \<Rightarrow> (st3, True)
                 | (st3, False) \<Rightarrow> mode_check st3)))"

text \<open>
  The loop \<open>for (;;)\<close> of \<open>tcp_transmit_thread\<close> over the wake-ups to come: the
  thread has returned, or it is in the wait loop when the wake-ups have run out.
  Each pass either takes a wake-up or finds the flag raised and lowers it, which
  is why the recursion ends.
\<close>

datatype outcome = Returned | Waiting

lemma wait_loop_length:
  "wait_loop ws st = (st1, ws1, waiting) \<Longrightarrow>
   length ws1 \<le> length ws \<and> (g_tx_flag st = 0 \<and> \<not> waiting \<longrightarrow> length ws1 < length ws)"
proof (induction ws arbitrary: st)
  case Nil
  then show ?case by auto
next
  case (Cons w ws)
  show ?case
  proof (cases "g_tx_flag st \<noteq> 0")
    case True
    with Cons.prems show ?thesis by auto
  next
    case False
    show ?thesis
    proof (cases "g_shutdown (pthread_cond_timedwait w st) \<noteq> 0")
      case True
      with False Cons.prems show ?thesis by (auto simp: Let_def)
    next
      case shut: False
      with False Cons.prems
      have "wait_loop ws (pthread_cond_timedwait w st) = (st1, ws1, waiting)"
        by (simp add: Let_def)
      from Cons.IH [OF this] show ?thesis by auto
    qed
  qed
qed

lemma after_wait_flag: "g_tx_flag (fst (after_wait delay clock st)) = 0"
  by (auto simp: after_wait_def Let_def send_status_def post_status_def send_frame_def
      reset_timeout_def clock_gettime_def timeout_check_def safety_tick_def mode_check_def
      split: prod.splits bool.splits if_splits)

function tcp_transmit_loop ::
  "nat \<Rightarrow> (nat \<Rightarrow> timespec) \<Rightarrow> wakeup list \<Rightarrow> transmit_state \<Rightarrow> transmit_state \<times> outcome" where
  "tcp_transmit_loop delay clock ws st =
     (if g_shutdown st \<noteq> 0 then (st, Returned)
      else
        (case wait_loop ws st of
           (st1, ws1, waiting) \<Rightarrow>
             if waiting then (st1, Waiting)
             else
               (case after_wait delay clock st1 of
                  (st2, left) \<Rightarrow>
                    if left then (st2, Returned) else tcp_transmit_loop delay clock ws1 st2)))"
  by pat_completeness auto

termination
proof (relation "measure (\<lambda>(delay, clock, ws, st).
                   2 * length ws + (if g_tx_flag st \<noteq> 0 then 1 else 0))", goal_cases)
  case 1
  show ?case by simp
next
  case (2 delay clock ws st st1 y ws1 waiting st2 left)
  then have w: "wait_loop ws st = (st1, ws1, waiting)" and nw: "\<not> waiting" by simp_all
  from 2 have "fst (after_wait delay clock st1) = st2" by (metis fst_conv)
  then have f: "g_tx_flag st2 = 0" using after_wait_flag [of delay clock st1] by simp
  from wait_loop_length [OF w] nw
  have "length ws1 \<le> length ws" "g_tx_flag st = 0 \<longrightarrow> length ws1 < length ws" by simp_all
  with f show ?case by auto
qed

declare tcp_transmit_loop.simps [simp del]

text \<open>The thread: it sets the first timeout and enters the loop.\<close>

definition tcp_transmit_thread ::
  "nat \<Rightarrow> (nat \<Rightarrow> timespec) \<Rightarrow> wakeup list \<Rightarrow> transmit_state \<Rightarrow> transmit_state \<times> outcome" where
  "tcp_transmit_thread delay clock ws st =
     tcp_transmit_loop delay clock ws (reset_timeout delay clock st)"

section \<open>The car in service mode (car.c)\<close>

text \<open>
  \<open>lo\<close> and \<open>hi\<close> are the globals \<open>g_lowest_floor_int\<close> and \<open>g_highest_floor_int\<close>. The
  callers of \<open>floor_num_handler\<close> here start from a local set to 0 and ignore the
  return value, so a label that does not parse reads as 0. The delay inside
  \<open>status_handler\<close> is passed without any other process writing the block; the
  status it copies out afterwards goes into the caller's buffer of 8 bytes.
\<close>

definition floor_validator :: "int \<Rightarrow> int \<Rightarrow> int \<Rightarrow> int" where
  "floor_validator lo hi f = (if f < lo then lo else if f > hi then hi else f)"

definition next_floor :: "int \<Rightarrow> int \<Rightarrow> int" where
  "next_floor current_floor' destination_floor' =
     (if current_floor' < destination_floor' then
        (let nf = current_floor' + 1 in if nf = 0 then 1 else nf)
      else if current_floor' > destination_floor' then
        (let nf = current_floor' - 1 in if nf = 0 then - 1 else nf)
      else current_floor')"

definition floor_or_zero :: "string \<Rightarrow> int" where
  "floor_or_zero f = (case floor_num_handler f of None \<Rightarrow> 0 | Some i \<Rightarrow> i)"

definition status_handler :: "string \<Rightarrow> car_shared_mem \<Rightarrow> car_shared_mem \<times> string" where
  "status_handler new_status sh =
     (let sh1 = sh\<lparr>status := new_status\<rparr> in (sh1, take 7 (status sh1)))"

definition move_one_floor :: "int \<Rightarrow> int \<Rightarrow> car_shared_mem \<Rightarrow> car_shared_mem" where
  "move_one_floor lo hi sh =
     (case status_handler ''Between'' sh of
        (sh1, out) \<Rightarrow>
          if status sh1 = ''Between'' then
            (let current = floor_or_zero (current_floor sh1);
                 destination = floor_or_zero (destination_floor sh1);
                 next = floor_validator lo hi (next_floor current destination)
             in sh1\<lparr>current_floor := index_handler next, status := ''Closed''\<rparr>)
          else sh1)"

definition service_between :: "int \<Rightarrow> int \<Rightarrow> car_shared_mem \<Rightarrow> car_shared_mem" where
  "service_between lo hi sh =
     (if \<not> (individual_service_mode sh \<noteq> 0) \<or> \<not> (status sh = ''Closed'') then sh
      else
        (let current = floor_or_zero (current_floor sh);
             destination = floor_or_zero (destination_floor sh)
         in if \<not> (destination = current + 1 \<or> destination = current - 1)
            then sh\<lparr>destination_floor := take 3 (current_floor sh)\<rparr>
            else move_one_floor lo hi sh))"

section \<open>Internal panel (internal.c)\<close>

text \<open>
  What \<open>main\<close> does to the shared block once it is mapped, in the order of the
  source: it locks the block's mutex, stores into fields, broadcasts on the block's
  condition variable, unlocks. A store carries the value stored.
\<close>

datatype panel_step =
    Mutex_lock
  | Store_open_button "8 word"
  | Store_close_button "8 word"
  | Store_emergency_stop "8 word"
  | Store_individual_service_mode "8 word"
  | Store_emergency_mode "8 word"
  | Store_destination_floor string
  | Cond_broadcast
  | Mutex_unlock

fun perform :: "car_shared_mem \<Rightarrow> panel_step \<Rightarrow> car_shared_mem" where
  "perform sh Mutex_lock = sh"
| "perform sh (Store_open_button v) = sh\<lparr>open_button := v\<rparr>"
| "perform sh (Store_close_button v) = sh\<lparr>close_button := v\<rparr>"
| "perform sh (Store_emergency_stop v) = sh\<lparr>emergency_stop := v\<rparr>"
| "perform sh (Store_individual_service_mode v) = sh\<lparr>individual_service_mode := v\<rparr>"
| "perform sh (Store_emergency_mode v) = sh\<lparr>emergency_mode := v\<rparr>"
| "perform sh (Store_destination_floor d) = sh\<lparr>destination_floor := d\<rparr>"
| "perform sh Cond_broadcast = sh"
| "perform sh Mutex_unlock = sh"

text \<open>
  The steps of \<open>main\<close> for an operation, and its exit status. The tests of \<open>up\<close> and
  \<open>down\<close> read the block after the lock and before any store, so they read the
  block \<open>main\<close> finds. The destination is copied with \<open>strncpy\<close> into the three
  characters of the field.
\<close>

definition internal_steps :: "car_shared_mem \<Rightarrow> string \<Rightarrow> panel_step list \<times> int" where
  "internal_steps sh operation =
     (if operation = ''open''
        then ([Mutex_lock, Store_open_button 1, Cond_broadcast, Mutex_unlock], 0)
      else if operation = ''close''
        then ([Mutex_lock, Store_close_button 1, Cond_broadcast, Mutex_unlock], 0)
      else if operation = ''stop''
        then ([Mutex_lock, Store_emergency_stop 1, Cond_broadcast, Mutex_unlock], 0)
      else if operation = ''service_on''
        then ([Mutex_lock, Store_individual_service_mode 1, Store_emergency_mode 0,
               Cond_broadcast, Mutex_unlock], 0)
      else if operation = ''service_off''
        then ([Mutex_lock, Store_individual_service_mode 0, Cond_broadcast, Mutex_unlock], 0)
      else if operation = ''up'' \<or> operation = ''down'' then
        (if individual_service_mode sh = 0 then ([Mutex_lock, Mutex_unlock], 1)
         else if status sh = ''Between'' then ([Mutex_lock, Mutex_unlock], 1)
         else if status sh \<noteq> ''Closed'' then ([Mutex_lock, Mutex_unlock], 1)
         else
           (case floor_num_handler (current_floor sh) of
              Some current \<Rightarrow>
                (let next0 = current + (if operation = ''up'' then 1 else - 1);
                     next = (if next0 = 0 then (if operation = ''up'' then 1 else - 1) else next0)
                 in ([Mutex_lock, Store_destination_floor (take 3 (index_handler next)),
                      Cond_broadcast, Mutex_unlock], 0))
            | None \<Rightarrow> ([Mutex_lock, Cond_broadcast, Mutex_unlock], 0)))
      else ([Mutex_lock, Mutex_unlock], 1))"

text \<open>\<open>main\<close>: the block it leaves, its steps performed in order, and its exit status.\<close>

definition internal_main :: "car_shared_mem \<Rightarrow> string \<Rightarrow> car_shared_mem \<times> int" where
  "internal_main sh operation =
     (case internal_steps sh operation of (steps, rc) \<Rightarrow> (foldl perform sh steps, rc))"

section \<open>Controller: registry rows and the per-car queue (controller.c)\<close>

text \<open>
  A row of the registry \<open>g_cars\<close>. The struct's fields \<open>status\<close>, \<open>cur_floor\<close> and
  \<open>dst_floor\<close> are \<open>reg_status\<close>, \<open>reg_cur_floor\<close> and \<open>reg_dst_floor\<close> here (the
  names are taken by the shared block and by parameters of the functions below);
  the descriptor and pointer of the shared mapping are left out. \<open>q\<close> is the array
  of \<open>MAX_QUEUE\<close> integers, and \<open>queue_len\<close> an \<open>int\<close> as in the source. The
  functions take the row itself where the source takes a pointer to it, which its
  callers never pass as null.
\<close>

record CarID =
  in_use :: int
  socket_fd :: int
  name :: string
  lowest_floor :: int
  highest_floor :: int
  q :: "int list"
  queue_len :: int
  reg_status :: string
  reg_cur_floor :: string
  reg_dst_floor :: string

definition MAX_QUEUE :: int where
  "MAX_QUEUE = 32"

text \<open>The loop of \<open>in_queue\<close>, from index \<open>i\<close>.\<close>

function in_queue_from :: "CarID \<Rightarrow> int \<Rightarrow> nat \<Rightarrow> bool" where
  "in_queue_from car fnum i =
     (if int i < queue_len car then
        (if q car ! i = fnum then True else in_queue_from car fnum (Suc i))
      else False)"
  by pat_completeness auto
termination
  by (relation "measure (\<lambda>(car, fnum, i). nat (queue_len car) - i)") auto

declare in_queue_from.simps [simp del]

definition in_queue :: "CarID \<Rightarrow> int \<Rightarrow> bool" where
  "in_queue car fnum = in_queue_from car fnum 0"

definition queue_floor :: "CarID \<Rightarrow> int \<Rightarrow> CarID" where
  "queue_floor car fnum =
     (if queue_len car < MAX_QUEUE
      then car\<lparr>q := (q car)[nat (queue_len car) := fnum], queue_len := queue_len car + 1\<rparr>
      else car)"

text \<open>The shifting loop \<open>for (i = start; i < queue_len; ++i) q[i-1] = q[i]\<close>, which
  \<open>dequeue_floor\<close> runs from 1 and \<open>enqueue\<close> from \<open>dst_index + 1\<close>.\<close>

function shift_from :: "int list \<Rightarrow> int \<Rightarrow> nat \<Rightarrow> int list" where
  "shift_from qa len i =
     (if int i < len then shift_from (qa[i - 1 := qa ! i]) len (Suc i) else qa)"
  by pat_completeness auto
termination
  by (relation "measure (\<lambda>(qa, len, i). nat len - i)") auto

declare shift_from.simps [simp del]

definition dequeue_floor :: "CarID \<Rightarrow> CarID" where
  "dequeue_floor car =
     (if queue_len car \<le> 0 then car
      else car\<lparr>q := shift_from (q car) (queue_len car) 1, queue_len := queue_len car - 1\<rparr>)"

text \<open>The search loop of \<open>enqueue\<close>: the pair is \<open>(src_index, dst_index)\<close>, each \<open>-1\<close>
  until the floor is first met.\<close>

function find_indexes :: "CarID \<Rightarrow> int \<Rightarrow> int \<Rightarrow> nat \<Rightarrow> int \<times> int \<Rightarrow> int \<times> int" where
  "find_indexes car src_floor dst_floor i (src_index, dst_index) =
     (if int i < queue_len car then
        find_indexes car src_floor dst_floor (Suc i)
          (if q car ! i = src_floor \<and> src_index < 0 then int i else src_index,
           if q car ! i = dst_floor \<and> dst_index < 0 then int i else dst_index)
      else (src_index, dst_index))"
  by pat_completeness auto
termination
  by (relation "measure (\<lambda>(car, s, d, i, p). nat (queue_len car) - i)") auto

declare find_indexes.simps [simp del]

definition enqueue :: "CarID \<Rightarrow> int \<Rightarrow> int \<Rightarrow> CarID" where
  "enqueue car src_floor dst_floor =
     (if src_floor = dst_floor then car
      else
        (let car1 = (if \<not> in_queue car src_floor then queue_floor car src_floor else car)
         in case find_indexes car1 src_floor dst_floor 0 (- 1, - 1) of
              (src_index, dst_index) \<Rightarrow>
                if dst_index \<ge> 0 \<and> dst_index < src_index then
                  queue_floor
                    (car1\<lparr>q := shift_from (q car1) (queue_len car1) (nat (dst_index + 1)),
                          queue_len := queue_len car1 - 1\<rparr>)
                    dst_floor
                else if dst_index < 0 then queue_floor car1 dst_floor
                else car1))"

text \<open>The queue a row holds: the first \<open>queue_len\<close> cells of the array. A row is well
  formed when the array has its 32 cells and the length lies within it.\<close>

definition queue :: "CarID \<Rightarrow> int list" where
  "queue car = take (nat (queue_len car)) (q car)"

definition queue_ok :: "CarID \<Rightarrow> bool" where
  "queue_ok car = (length (q car) = 32 \<and> 0 \<le> queue_len car \<and> queue_len car \<le> MAX_QUEUE)"

text \<open>The position of the first occurrence of a floor in a queue.\<close>

definition position :: "int list \<Rightarrow> int \<Rightarrow> nat" where
  "position xs x = length (takeWhile (\<lambda>y. y \<noteq> x) xs)"

text \<open>
  What \<open>queue_floor\<close> and \<open>enqueue\<close> do to the queue of a well-formed row, written on
  the list (shown below: \<open>queue_queue_floor\<close>, \<open>queue_enqueue\<close>). The destination that
  stands before the source is taken out at its first position and put at the end.
\<close>

definition push :: "int list \<Rightarrow> int \<Rightarrow> int list" where
  "push xs fnum = (if length xs < 32 then xs @ [fnum] else xs)"

definition enqueue_list :: "int list \<Rightarrow> int \<Rightarrow> int \<Rightarrow> int list" where
  "enqueue_list xs src_floor dst_floor =
     (if src_floor = dst_floor then xs
      else
        (let xs1 = (if src_floor \<in> set xs then xs else push xs src_floor)
         in if dst_floor \<in> set xs1 \<and> src_floor \<in> set xs1 \<and>
               position xs1 dst_floor < position xs1 src_floor
            then remove1 dst_floor xs1 @ [dst_floor]
            else if dst_floor \<in> set xs1 then xs1
            else push xs1 dst_floor))"

text \<open>The value the search loop of \<open>enqueue\<close> holds for a floor once it has looked at the
  first \<open>i\<close> cells.\<close>

definition first_in :: "int list \<Rightarrow> int \<Rightarrow> nat \<Rightarrow> int" where
  "first_in xs x i = (if x \<in> set (take i xs) then int (position xs x) else - 1)"

text \<open>The queues the controller can hold: a row is registered with an empty queue,
  and only \<open>enqueue\<close> and \<open>dequeue_floor\<close> change it afterwards.\<close>

inductive reachable :: "CarID \<Rightarrow> bool" where
  registered: "length (q car) = 32 \<Longrightarrow> queue_len car = 0 \<Longrightarrow> reachable car"
| enqueued: "reachable car \<Longrightarrow> reachable (enqueue car src_floor dst_floor)"
| dequeued: "reachable car \<Longrightarrow> reachable (dequeue_floor car)"

section \<open>Controller: scheduling and call routing (controller.c)\<close>

text \<open>Frames are the payload strings; \<open>send_car\<close> and \<open>car_scheduler_handler\<close> return
  the frames they send on the car's socket.\<close>

definition send_car :: "CarID \<Rightarrow> string list" where
  "send_car car =
     (if queue_len car \<le> 0 then []
      else [''FLOOR '' @ index_handler (q car ! 0)])"

definition car_scheduler_handler :: "CarID \<Rightarrow> CarID \<times> string list" where
  "car_scheduler_handler car =
     (let car1 =
            (if queue_len car > 0 then
               (let head_str = index_handler (q car ! 0)
                in if reg_status car = ''Opening'' \<and> reg_cur_floor car = head_str
                   then dequeue_floor car else car)
             else car)
      in (car1, if queue_len car1 > 0 then send_car car1 else []))"

definition can_service :: "CarID \<Rightarrow> int \<Rightarrow> int \<Rightarrow> bool" where
  "can_service car src_floor dst_floor =
     (if in_use car = 0 then False
      else if src_floor < lowest_floor car \<or> src_floor > highest_floor car then False
      else if dst_floor < lowest_floor car \<or> dst_floor > highest_floor car then False
      else True)"

text \<open>The registry is the list of its slots, in slot order. \<open>car_selector\<close> returns
  the name it copies out (at most 31 characters) when it finds a car.\<close>

fun car_selector :: "CarID list \<Rightarrow> int \<Rightarrow> int \<Rightarrow> string option" where
  "car_selector [] src_floor dst_floor = None"
| "car_selector (car # cars) src_floor dst_floor =
     (if in_use car = 0 then car_selector cars src_floor dst_floor
      else if can_service car src_floor dst_floor then Some (take 31 (name car))
      else car_selector cars src_floor dst_floor)"

text \<open>\<open>find_registry\<close>: the slot of the first row in use with the name.\<close>

fun find_registry :: "CarID list \<Rightarrow> string \<Rightarrow> nat option" where
  "find_registry [] nm = None"
| "find_registry (car # cars) nm =
     (if in_use car \<noteq> 0 \<and> name car = nm then Some 0
      else map_option Suc (find_registry cars nm))"

text \<open>
  \<open>sscanf\<close> with a conversion \<open>%Ns\<close>: white space is skipped, then at most \<open>N\<close>
  characters that are not white space are stored; the rest of the input is left
  for the next directive. At the end of the input nothing is stored, and the
  buffer, zeroed by the caller, stays empty.
\<close>

definition scan_word :: "nat \<Rightarrow> string \<Rightarrow> string \<times> string" where
  "scan_word n s =
     (let s1 = dropWhile isspace s;
          w = take n (takeWhile (\<lambda>c. \<not> isspace c) s1)
      in (w, drop (length w) s1))"

text \<open>\<open>sscanf(frame, "CALL %3s %3s", src_floor, dst_floor)\<close>.\<close>

definition scan_call :: "string \<Rightarrow> string \<times> string" where
  "scan_call frame =
     (if take 4 frame = ''CALL'' then
        (case scan_word 3 (drop 4 frame) of
           (src_floor, rest) \<Rightarrow>
             if src_floor = [] then ([], [])
             else (case scan_word 3 rest of (dst_floor, rest2) \<Rightarrow> (src_floor, dst_floor)))
      else ([], []))"

text \<open>\<open>tcp_call_thread\<close>: the reply sent to the caller, the registry afterwards, and
  the frames sent to the chosen car.\<close>

definition tcp_call_thread :: "CarID list \<Rightarrow> string \<Rightarrow> string \<times> CarID list \<times> string list" where
  "tcp_call_thread g_cars frame =
     (case scan_call frame of
        (src_floor, dst_floor) \<Rightarrow>
          (case (floor_num_handler src_floor, floor_num_handler dst_floor) of
             (Some src_floor_int, Some dst_floor_int) \<Rightarrow>
               if src_floor_int = dst_floor_int then (''UNAVAILABLE'', g_cars, [])
               else
                 (case car_selector g_cars src_floor_int dst_floor_int of
                    Some car_name \<Rightarrow>
                      (case find_registry g_cars car_name of
                         Some k \<Rightarrow>
                           (let car = enqueue (g_cars ! k) src_floor_int dst_floor_int
                            in (''CAR '' @ car_name, g_cars[k := car], send_car car))
                       | None \<Rightarrow> (''CAR '' @ car_name, g_cars, []))
                  | None \<Rightarrow> (''UNAVAILABLE'', g_cars, []))
           | _ \<Rightarrow> (''UNAVAILABLE'', g_cars, [])))"

text \<open>
  The routing rule in the specification's words: \<open>UNAVAILABLE\<close> when a floor does not
  parse or both are the same floor, otherwise the first row in slot order that is in
  use and whose range holds both floors.
\<close>

definition covers :: "CarID \<Rightarrow> int \<Rightarrow> int \<Rightarrow> bool" where
  "covers car s d =
     (in_use car \<noteq> 0 \<and> lowest_floor car \<le> s \<and> s \<le> highest_floor car \<and>
      lowest_floor car \<le> d \<and> d \<le> highest_floor car)"

definition call_reply :: "CarID list \<Rightarrow> string \<Rightarrow> string \<Rightarrow> string" where
  "call_reply g_cars a b =
     (case (floor_num_handler a, floor_num_handler b) of
        (Some s, Some d) \<Rightarrow>
          if s = d then ''UNAVAILABLE''
          else (case find (\<lambda>car. covers car s d) g_cars of
                  Some car \<Rightarrow> ''CAR '' @ name car
                | None \<Rightarrow> ''UNAVAILABLE'')
      | _ \<Rightarrow> ''UNAVAILABLE'')"

text \<open>A floor field of a frame that fits the controller's buffers: one to three
  characters, none of them white space.\<close>

definition floor_field :: "string \<Rightarrow> bool" where
  "floor_field w = (w \<noteq> [] \<and> length w \<le> 3 \<and> list_all (\<lambda>c. \<not> isspace c) w)"

section \<open>Sample states\<close>

text \<open>A row as \<open>car_connection_manager\<close> leaves it for a car A serving floors 1 to 200,
  a free slot, and a registry of 16 slots holding one car in its second slot.\<close>

definition empty_car :: CarID where
  "empty_car = \<lparr>in_use = 1, socket_fd = 5, name = ''A'', lowest_floor = 1, highest_floor = 200,
     q = replicate 32 0, queue_len = 0, reg_status = ''Closed'', reg_cur_floor = ''1'',
     reg_dst_floor = ''1''\<rparr>"

definition free_slot :: CarID where
  "free_slot = \<lparr>in_use = 0, socket_fd = - 1, name = [], lowest_floor = 0, highest_floor = 0,
     q = replicate 32 0, queue_len = 0, reg_status = [], reg_cur_floor = [],
     reg_dst_floor = []\<rparr>"

definition registry :: "CarID \<Rightarrow> CarID list" where
  "registry car = free_slot # car # replicate 14 free_slot"

text \<open>The row after sixteen calls 1 to 2, 3 to 4, ..., 31 to 32 (its queue holds the
  floors 1 to 32), the same row after the first floor has been served, and a row
  with the queue 7, 3 whose car reports its doors opening at floor 7.\<close>

definition full_car :: CarID where
  "full_car = foldl (\<lambda>car (s, d). enqueue car s d) empty_car
     [(1, 2), (3, 4), (5, 6), (7, 8), (9, 10), (11, 12), (13, 14), (15, 16), (17, 18),
      (19, 20), (21, 22), (23, 24), (25, 26), (27, 28), (29, 30), (31, 32)]"

definition nearly_full_car :: CarID where
  "nearly_full_car = dequeue_floor full_car"

definition opening_car :: CarID where
  "opening_car = (enqueue empty_car 7 3)\<lparr>reg_status := ''Opening'', reg_cur_floor := ''7''\<rparr>"


text \<open>A car in service mode standing at floor B1 with its doors closed.\<close>

definition b1_car :: car_shared_mem where
  "b1_car = \<lparr>current_floor = ''B1'', destination_floor = ''B1'', status = ''Closed'',
     open_button = 0, close_button = 0, safety_system = 1, door_obstruction = 0,
     overload = 0, emergency_stop = 0, individual_service_mode = 1, emergency_mode = 0\<rparr>"

text \<open>
  The transmit thread of an idle car at its start: healthy block (counter 1), no
  status event pending, no shutdown, link up, nothing sent. \<open>paired_clock\<close> is a
  clock under which the thread's passes are ten seconds apart and the two readings
  within a pass (the second and the third, the fourth and the fifth, ...) fall in
  the same second.
\<close>

definition idle_thread :: transmit_state where
  "idle_thread = \<lparr>g_shm = idle_car, g_tx_flag = 0, g_shutdown = 0,
     transmit_timeout = \<lparr>tv_sec = 0, tv_nsec = 0\<rparr>, clock_reads = 0, link_up = True, sent = []\<rparr>"

definition paired_clock :: "nat \<Rightarrow> timespec" where
  "paired_clock k = \<lparr>tv_sec = 10 * int ((k + 1) div 2), tv_nsec = 0\<rparr>"

section \<open>Facts about the floor codec\<close>

lemma floor_num_handler_1: "floor_num_handler ''1'' = Some 1"
  by (simp add: floor_num_handler_def strtol_def isspace_def isdigit_def digits_value_def
      digit_value_def LONG_MAX_def LONG_MIN_def)

lemma isdigit_facts:
  "isdigit c \<Longrightarrow> \<not> isspace c \<and> c \<noteq> CHR ''-'' \<and> c \<noteq> CHR ''+'' \<and> c \<noteq> CHR ''b'' \<and> c \<noteq> CHR ''B''"
  by (auto simp: isdigit_def isspace_def)

lemma digit_value_range: "isdigit c \<Longrightarrow> 0 \<le> digit_value c \<and> digit_value c \<le> 9"
  by (auto simp: isdigit_def digit_value_def)

lemma char_of_digit_value: "isdigit c \<Longrightarrow> char_of (48 + nat (digit_value c)) = c"
proof -
  assume "isdigit c"
  then have "48 + nat (digit_value c) = (of_char c :: nat)"
    unfolding isdigit_def digit_value_def by linarith
  then show ?thesis by simp
qed

lemma digit_value_zero: "digit_value c = 0 \<Longrightarrow> c = CHR ''0''"
proof -
  assume "digit_value c = 0"
  then have "(of_char c :: nat) = of_char CHR ''0''" by (simp add: digit_value_def)
  then show ?thesis by (simp only: of_char_eq_iff)
qed

lemma digits_value_snoc: "digits_value (ds @ [c]) = 10 * digits_value ds + digit_value c"
  by (simp add: digits_value_def)

lemma digits_value_Nil: "digits_value [] = 0"
  by (simp add: digits_value_def)

lemma digits_value_single: "digits_value [c] = digit_value c"
  by (simp add: digits_value_def)

lemma canonical_value_pos: "canonical_decimal ds \<Longrightarrow> 1 \<le> digits_value ds"
proof (induction ds rule: rev_induct)
  case Nil
  then show ?case by (simp add: canonical_decimal_def)
next
  case (snoc c ds)
  show ?case
  proof (cases "ds = []")
    case True
    with snoc.prems have "isdigit c" "c \<noteq> CHR ''0''" by (simp_all add: canonical_decimal_def)
    then have "0 \<le> digit_value c" "digit_value c \<noteq> 0"
      using digit_value_range digit_value_zero by blast+
    with True show ?thesis by (simp add: digits_value_single)
  next
    case False
    with snoc.prems have "canonical_decimal ds" "isdigit c" by (simp_all add: canonical_decimal_def)
    then have "1 \<le> digits_value ds" "0 \<le> digit_value c"
      using snoc.IH digit_value_range by blast+
    then show ?thesis by (simp add: digits_value_snoc)
  qed
qed

lemma dec_nat_canonical: "canonical_decimal ds \<Longrightarrow> dec_nat (nat (digits_value ds)) = ds"
proof (induction ds rule: rev_induct)
  case Nil
  then show ?case by (simp add: canonical_decimal_def)
next
  case (snoc c ds)
  from snoc.prems have c: "isdigit c" by (simp add: canonical_decimal_def)
  then have r: "0 \<le> digit_value c" "digit_value c \<le> 9" using digit_value_range by blast+
  show ?case
  proof (cases "ds = []")
    case True
    then have "nat (digits_value (ds @ [c])) = nat (digit_value c)"
      by (simp add: digits_value_single)
    moreover have "nat (digit_value c) < 10" using r by simp
    ultimately show ?thesis
      using True char_of_digit_value [OF c] by (simp add: dec_nat.simps)
  next
    case False
    with snoc.prems have can: "canonical_decimal ds" by (simp add: canonical_decimal_def)
    then have pos: "1 \<le> digits_value ds" by (rule canonical_value_pos)
    define v where "v = nat (digits_value ds)"
    define d where "d = nat (digit_value c)"
    have v: "1 \<le> v" "d < 10" using pos r by (simp_all add: v_def d_def)
    have eq: "nat (digits_value (ds @ [c])) = 10 * v + d"
      using pos r by (simp add: digits_value_snoc v_def d_def nat_add_distrib nat_mult_distrib)
    have "dec_nat (10 * v + d) = dec_nat v @ [char_of (48 + d)]"
      using v by (subst dec_nat.simps) simp
    then show ?thesis
      using eq snoc.IH [OF can] char_of_digit_value [OF c] by (simp add: v_def d_def)
  qed
qed

lemma canonical_length: "canonical_decimal ds \<Longrightarrow> digits_value ds < 10 ^ n \<Longrightarrow> length ds \<le> n"
proof (induction ds arbitrary: n rule: rev_induct)
  case Nil
  then show ?case by simp
next
  case (snoc c ds)
  from snoc.prems have c: "isdigit c" by (simp add: canonical_decimal_def)
  then have r: "0 \<le> digit_value c" using digit_value_range by blast
  show ?case
  proof (cases "ds = []")
    case True
    have "n \<noteq> 0"
    proof
      assume "n = 0"
      with snoc.prems(2) have "digits_value (ds @ [c]) < 1" by simp
      with canonical_value_pos [OF snoc.prems(1)] show False by simp
    qed
    with True show ?thesis by simp
  next
    case False
    with snoc.prems have can: "canonical_decimal ds" by (simp add: canonical_decimal_def)
    then have pos: "1 \<le> digits_value ds" by (rule canonical_value_pos)
    obtain m where n: "n = Suc m"
      using snoc.prems(2) pos r by (cases n) (simp_all add: digits_value_snoc)
    have "10 * digits_value ds < 10 * 10 ^ m"
      using snoc.prems(2) r by (simp add: digits_value_snoc n)
    then have "digits_value ds < 10 ^ m" by simp
    from snoc.IH [OF can this] show ?thesis by (simp add: n)
  qed
qed

lemma strtol_digits:
  assumes "ds \<noteq> []" "list_all isdigit ds"
  shows "strtol ds = (max LONG_MIN (min LONG_MAX (digits_value ds)), length ds)"
proof -
  from assms obtain c cs where ds: "ds = c # cs" by (cases ds) auto
  with assms have c: "isdigit c" by simp
  have tw: "takeWhile isdigit (c # cs) = c # cs"
    using assms(2) unfolding ds list_all_iff by (simp only: takeWhile_eq_all_conv) 
  have sp: "takeWhile isspace (c # cs) = []" "dropWhile isspace (c # cs) = c # cs"
    using c isdigit_facts by simp_all
  have sg: "c \<noteq> CHR ''-''" "c \<noteq> CHR ''+''"
    using c isdigit_facts by blast+
  have "strtol (c # cs) =
      (max LONG_MIN (min LONG_MAX (digits_value (takeWhile isdigit (c # cs)))),
       length (takeWhile isdigit (c # cs)))"
    unfolding strtol_def Let_def sp using sg tw by simp
  then show ?thesis by (simp only: tw ds)
qed


lemma floor_num_handler_canonical:
  assumes "canonical_decimal ds" "digits_value ds \<le> 999"
  shows "floor_num_handler ds = Some (digits_value ds)"
proof -
  from assms(1) have ne: "ds \<noteq> []" and dg: "list_all isdigit ds"
    by (simp_all add: canonical_decimal_def)
  from ne dg have "isdigit (hd ds)" by (cases ds) simp_all
  then have hd: "hd ds \<noteq> CHR ''b''" "hd ds \<noteq> CHR ''B''" using isdigit_facts by blast+
  have pos: "1 \<le> digits_value ds" using assms(1) by (rule canonical_value_pos)
  have "max LONG_MIN (min LONG_MAX (digits_value ds)) = digits_value ds"
    using pos assms(2) by (simp add: LONG_MIN_def LONG_MAX_def)
  then show ?thesis
    using ne hd pos assms(2) by (simp add: floor_num_handler_def strtol_digits [OF ne dg])
qed

lemma floor_num_handler_basement:
  assumes "canonical_decimal ds" "digits_value ds \<le> 99"
  shows "floor_num_handler (CHR ''B'' # ds) = Some (- digits_value ds)"
proof -
  from assms(1) have ne: "ds \<noteq> []" and dg: "list_all isdigit ds"
    by (simp_all add: canonical_decimal_def)
  have pos: "1 \<le> digits_value ds" using assms(1) by (rule canonical_value_pos)
  have "max LONG_MIN (min LONG_MAX (digits_value ds)) = digits_value ds"
    using pos assms(2) by (simp add: LONG_MIN_def LONG_MAX_def)
  then show ?thesis
    using ne pos assms(2) by (simp add: floor_num_handler_def strtol_digits [OF ne dg])
qed

lemma index_handler_canonical:
  assumes "canonical_decimal ds" "digits_value ds \<le> 999"
  shows "index_handler (digits_value ds) = ds"
proof -
  have pos: "1 \<le> digits_value ds" using assms(1) by (rule canonical_value_pos)
  have "digits_value ds < 10 ^ 3" using assms(2) by simp
  with assms(1) have "length ds \<le> 3" by (rule canonical_length)
  then show ?thesis
    using pos dec_nat_canonical [OF assms(1)] by (simp add: index_handler_def show_int_def)
qed

lemma index_handler_basement:
  assumes "canonical_decimal ds" "digits_value ds \<le> 99"
  shows "index_handler (- digits_value ds) = CHR ''B'' # ds"
proof -
  have pos: "1 \<le> digits_value ds" using assms(1) by (rule canonical_value_pos)
  have "digits_value ds < 10 ^ 2" using assms(2) by simp
  with assms(1) have "length ds \<le> 2" by (rule canonical_length)
  then show ?thesis
    using pos dec_nat_canonical [OF assms(1)] by (simp add: index_handler_def show_int_def)
qed

lemma canonical_label_round_trip:
  assumes "valid_floor_label l" "\<not> leading_zero l"
  shows "\<exists>i. floor_num_handler l = Some i \<and> i \<noteq> 0 \<and> (i < 0 \<longleftrightarrow> hd l = CHR ''B'') \<and>
             index_handler i = l"
proof (cases l)
  case Nil
  with assms show ?thesis by (simp add: valid_floor_label_def)
next
  case (Cons c t)
  show ?thesis
  proof (cases "c = CHR ''B''")
    case True
    with assms Cons have can: "canonical_decimal t" and hi: "digits_value t \<le> 99"
      by (simp_all add: valid_floor_label_def leading_zero_def decimal_string_def
          canonical_decimal_def)
    have pos: "1 \<le> digits_value t" using can by (rule canonical_value_pos)
    show ?thesis
      using floor_num_handler_basement [OF can hi] index_handler_basement [OF can hi] pos
      by (simp add: Cons True)
  next
    case False
    with assms Cons have can: "canonical_decimal l" and hi: "digits_value l \<le> 999"
      by (simp_all add: valid_floor_label_def leading_zero_def decimal_string_def
          canonical_decimal_def)
    have pos: "1 \<le> digits_value l" using can by (rule canonical_value_pos)
    show ?thesis
      using floor_num_handler_canonical [OF can hi] index_handler_canonical [OF can hi] pos False
      by (simp add: Cons)
  qed
qed

lemma digit_char:
  assumes "d < 10"
  shows "isdigit (char_of (48 + d))" "digit_value (char_of (48 + d)) = int d"
proof -
  have "(of_char (char_of (48 + d)) :: nat) = 48 + d"
    using assms by simp
  then show "isdigit (char_of (48 + d))" "digit_value (char_of (48 + d)) = int d"
    using assms by (simp_all add: isdigit_def digit_value_def)
qed

lemma dec_nat_digits: "list_all isdigit (dec_nat n) \<and> dec_nat n \<noteq> []"
proof (induction n rule: dec_nat.induct)
  case (1 n)
  show ?case
  proof (cases "n < 10")
    case True
    then show ?thesis using digit_char(1) [of n] by (simp add: dec_nat.simps)
  next
    case False
    have "n mod 10 < 10" by simp
    then have "isdigit (char_of (48 + n mod 10))" by (rule digit_char(1))
    with False 1 show ?thesis by (subst dec_nat.simps, subst (2) dec_nat.simps) simp
  qed
qed

lemma digits_value_dec_nat: "digits_value (dec_nat n) = int n"
proof (induction n rule: dec_nat.induct)
  case (1 n)
  show ?case
  proof (cases "n < 10")
    case True
    then show ?thesis using digit_char(2) [of n] by (simp add: dec_nat.simps digits_value_single)
  next
    case False
    have "n mod 10 < 10" by simp
    then have "digit_value (char_of (48 + n mod 10)) = int (n mod 10)" by (rule digit_char(2))
    moreover have "dec_nat n = dec_nat (n div 10) @ [char_of (48 + n mod 10)]"
      using False by (subst dec_nat.simps) simp
    moreover have "10 * int (n div 10) + int (n mod 10) = int n" by presburger
    ultimately show ?thesis using False 1 by (simp add: digits_value_snoc)
  qed
qed

lemma hd_dec_nat: "0 < n \<Longrightarrow> hd (dec_nat n) \<noteq> CHR ''0''"
proof (induction n rule: dec_nat.induct)
  case (1 n)
  show ?case
  proof (cases "n < 10")
    case True
    have "digit_value (char_of (48 + n)) = int n" using True by (rule digit_char(2))
    moreover have "digit_value CHR ''0'' = 0" by (simp add: digit_value_def)
    ultimately have "char_of (48 + n) \<noteq> CHR ''0''" using "1.prems" by auto
    then show ?thesis using True by (simp add: dec_nat.simps)
  next
    case False
    then have "0 < n div 10" by simp
    with False 1 have "hd (dec_nat (n div 10)) \<noteq> CHR ''0''" by simp
    moreover have "dec_nat n = dec_nat (n div 10) @ [char_of (48 + n mod 10)]"
      using False by (subst dec_nat.simps) simp
    ultimately show ?thesis using dec_nat_digits [of "n div 10"] by simp
  qed
qed

lemma canonical_dec_nat: "0 < n \<Longrightarrow> canonical_decimal (dec_nat n)"
  using dec_nat_digits [of n] hd_dec_nat [of n] by (simp add: canonical_decimal_def)

lemma accepted_index_valid:
  assumes "floor_num_handler s = Some i"
  shows "i \<noteq> 0 \<and> - 99 \<le> i \<and> i \<le> 999 \<and> valid_floor_label (index_handler i) \<and>
         \<not> leading_zero (index_handler i) \<and> floor_num_handler (index_handler i) = Some i"
proof -
  from assms have rng: "(1 \<le> i \<and> i \<le> 999) \<or> (- 99 \<le> i \<and> i \<le> - 1)"
    by (auto simp: floor_num_handler_def split: if_splits prod.splits)
  show ?thesis
  proof (cases "0 < i")
    case True
    define n where "n = nat i"
    have n: "0 < n" "int n = i" using True by (simp_all add: n_def)
    have can: "canonical_decimal (dec_nat n)" using n(1) by (rule canonical_dec_nat)
    have v: "digits_value (dec_nat n) = i" using n(2) by (simp add: digits_value_dec_nat)
    have hi: "digits_value (dec_nat n) \<le> 999" using rng True v by simp
    have ih: "index_handler i = dec_nat n"
      using index_handler_canonical [OF can hi] v by simp
    have "hd (dec_nat n) \<noteq> CHR ''B''"
      using dec_nat_digits [of n] isdigit_facts [of "hd (dec_nat n)"]
      by (cases "dec_nat n") auto
    then have "valid_floor_label (dec_nat n) \<and> \<not> leading_zero (dec_nat n)"
      using can hi v True
      by (cases "dec_nat n")
        (auto simp: valid_floor_label_def leading_zero_def decimal_string_def
          canonical_decimal_def digits_value_Nil)
    then show ?thesis
      using floor_num_handler_canonical [OF can hi] v ih rng True by simp
  next
    case False
    define n where "n = nat (- i)"
    have n: "0 < n" "int n = - i" using False rng by (simp_all add: n_def)
    have can: "canonical_decimal (dec_nat n)" using n(1) by (rule canonical_dec_nat)
    have v: "digits_value (dec_nat n) = - i" using n(2) by (simp add: digits_value_dec_nat)
    have hi: "digits_value (dec_nat n) \<le> 99" using rng False v by simp
    have ih: "index_handler i = CHR ''B'' # dec_nat n"
      using index_handler_basement [OF can hi] v by simp
    have "valid_floor_label (CHR ''B'' # dec_nat n) \<and> \<not> leading_zero (CHR ''B'' # dec_nat n)"
      using can hi v False rng
      by (simp add: valid_floor_label_def leading_zero_def decimal_string_def
          canonical_decimal_def)
    then show ?thesis
      using floor_num_handler_basement [OF can hi] v ih rng False by simp
  qed
qed

lemma digits_value_nonneg: "list_all isdigit ds \<Longrightarrow> 0 \<le> digits_value ds"
proof (induction ds rule: rev_induct)
  case Nil
  then show ?case by (simp add: digits_value_Nil)
next
  case (snoc c ds)
  then have "0 \<le> digits_value ds" "0 \<le> digit_value c"
    using digit_value_range [of c] by simp_all
  then show ?case by (simp add: digits_value_snoc)
qed

lemma clamp_in_range:
  assumes "0 \<le> v"
  shows "(1 \<le> max LONG_MIN (min LONG_MAX v) \<and> max LONG_MIN (min LONG_MAX v) \<le> hi \<and> hi \<le> 999)
         \<longleftrightarrow> (1 \<le> v \<and> v \<le> hi \<and> hi \<le> 999)"
    and "1 \<le> max LONG_MIN (min LONG_MAX v) \<Longrightarrow> max LONG_MIN (min LONG_MAX v) \<le> 999 \<Longrightarrow>
         max LONG_MIN (min LONG_MAX v) = v"
  using assms by (auto simp: LONG_MIN_def LONG_MAX_def min_def max_def)

text \<open>Every valid label is accepted, with the number its digits denote.\<close>

lemma floor_num_handler_decimal:
  assumes "decimal_string ds" "1 \<le> digits_value ds" "digits_value ds \<le> 999"
  shows "floor_num_handler ds = Some (digits_value ds)"
proof -
  from assms(1) have ne: "ds \<noteq> []" and dg: "list_all isdigit ds"
    by (simp_all add: decimal_string_def)
  from ne dg have "isdigit (hd ds)" by (cases ds) simp_all
  then have hd: "hd ds \<noteq> CHR ''b''" "hd ds \<noteq> CHR ''B''" using isdigit_facts by blast+
  have "max LONG_MIN (min LONG_MAX (digits_value ds)) = digits_value ds"
    using assms(2,3) by (simp add: LONG_MIN_def LONG_MAX_def)
  then show ?thesis
    using ne hd assms(2,3) by (simp add: floor_num_handler_def strtol_digits [OF ne dg])
qed

lemma floor_num_handler_decimal_basement:
  assumes "decimal_string ds" "1 \<le> digits_value ds" "digits_value ds \<le> 99"
  shows "floor_num_handler (CHR ''B'' # ds) = Some (- digits_value ds)"
proof -
  from assms(1) have ne: "ds \<noteq> []" and dg: "list_all isdigit ds"
    by (simp_all add: decimal_string_def)
  have "max LONG_MIN (min LONG_MAX (digits_value ds)) = digits_value ds"
    using assms(2,3) by (simp add: LONG_MIN_def LONG_MAX_def)
  then show ?thesis
    using ne assms(2,3) by (simp add: floor_num_handler_def strtol_digits [OF ne dg])
qed

lemma valid_label_accepted:
  assumes "valid_floor_label l"
  shows "\<exists>i. floor_num_handler l = Some i \<and> i \<noteq> 0 \<and> (i < 0 \<longleftrightarrow> hd l = CHR ''B'')"
proof (cases l)
  case Nil
  with assms show ?thesis by (simp add: valid_floor_label_def)
next
  case (Cons c t)
  show ?thesis
  proof (cases "c = CHR ''B''")
    case True
    with assms Cons have d: "decimal_string t" "1 \<le> digits_value t" "digits_value t \<le> 99"
      by (simp_all add: valid_floor_label_def)
    show ?thesis using floor_num_handler_decimal_basement [OF d] d(2) by (simp add: Cons True)
  next
    case False
    with assms Cons have d: "decimal_string l" "1 \<le> digits_value l" "digits_value l \<le> 999"
      by (simp_all add: valid_floor_label_def)
    show ?thesis using floor_num_handler_decimal [OF d] d(2) False by (simp add: Cons)
  qed
qed

text \<open>What is rejected: strings without a digit, and digit strings out of range.\<close>

lemma takeWhile_no_digit: "\<forall>c\<in>set s. \<not> isdigit c \<Longrightarrow> takeWhile isdigit s = []"
  by (cases s) auto

lemma strtol_no_digit:
  assumes "\<forall>c\<in>set s. \<not> isdigit c"
  shows "strtol s = (0, 0)"
proof -
  define s1 where "s1 = dropWhile isspace s"
  define s2 where "s2 = (if s1 \<noteq> [] \<and> (hd s1 = CHR ''-'' \<or> hd s1 = CHR ''+'') then tl s1 else s1)"
  have "set s1 \<subseteq> set s" unfolding s1_def by (auto dest: set_dropWhileD)
  moreover have "set s2 \<subseteq> set s1" unfolding s2_def by (auto dest: list.set_sel(2))
  ultimately have "\<forall>c\<in>set s2. \<not> isdigit c" using assms by blast
  then have "takeWhile isdigit s2 = []" by (rule takeWhile_no_digit)
  moreover have "strtol s = (if takeWhile isdigit s2 = [] then (0, 0)
       else (max LONG_MIN (min LONG_MAX
               (if s1 \<noteq> [] \<and> hd s1 = CHR ''-'' then - digits_value (takeWhile isdigit s2)
                else digits_value (takeWhile isdigit s2))),
             length (takeWhile isspace s) +
             (if s1 \<noteq> [] \<and> (hd s1 = CHR ''-'' \<or> hd s1 = CHR ''+'') then 1 else 0) +
             length (takeWhile isdigit s2)))"
    unfolding strtol_def Let_def s1_def s2_def by (rule refl)
  ultimately show ?thesis by simp
qed

lemma no_digit_rejected:
  assumes "list_all (\<lambda>c. \<not> isdigit c) f"
  shows "floor_num_handler f = None"
proof (cases f)
  case Nil
  then show ?thesis by (simp add: floor_num_handler_def)
next
  case (Cons c t)
  from assms have f: "\<forall>c\<in>set f. \<not> isdigit c" by (simp add: list_all_iff)
  then have t: "\<forall>c\<in>set t. \<not> isdigit c" using Cons by simp
  show ?thesis
    using strtol_no_digit [OF f] strtol_no_digit [OF t] Cons
    by (simp add: floor_num_handler_def)
qed

lemma out_of_range_rejected:
  assumes "list_all isdigit ds" "\<not> (1 \<le> digits_value ds \<and> digits_value ds \<le> 999)"
  shows "floor_num_handler ds = None"
proof (cases "ds = []")
  case True
  then show ?thesis by (simp add: floor_num_handler_def)
next
  case False
  from False assms(1) have "isdigit (hd ds)" by (cases ds) simp_all
  then have hd: "hd ds \<noteq> CHR ''b''" "hd ds \<noteq> CHR ''B''" using isdigit_facts by blast+
  have nn: "0 \<le> digits_value ds" using assms(1) by (rule digits_value_nonneg)
  have "\<not> (1 \<le> max LONG_MIN (min LONG_MAX (digits_value ds)) \<and>
           max LONG_MIN (min LONG_MAX (digits_value ds)) \<le> 999)"
    using clamp_in_range(1) [OF nn, of 999] assms(2) by simp
  then show ?thesis
    using False hd by (auto simp add: floor_num_handler_def strtol_digits [OF False assms(1)])
qed

lemma out_of_range_basement_rejected:
  assumes "list_all isdigit ds" "\<not> (1 \<le> digits_value ds \<and> digits_value ds \<le> 99)"
  shows "floor_num_handler (CHR ''B'' # ds) = None"
proof (cases "ds = []")
  case True
  have "strtol [] = (0, 0)" by (simp add: strtol_def)
  then show ?thesis using True by (simp add: floor_num_handler_def)
next
  case False
  have nn: "0 \<le> digits_value ds" using assms(1) by (rule digits_value_nonneg)
  have "\<not> (1 \<le> max LONG_MIN (min LONG_MAX (digits_value ds)) \<and>
           max LONG_MIN (min LONG_MAX (digits_value ds)) \<le> 99)"
    using clamp_in_range(1) [OF nn, of 99] assms(2) by simp
  then show ?thesis
    by (auto simp add: floor_num_handler_def strtol_digits [OF False assms(1)])
qed

text \<open>The form of every accepted string.\<close>

lemma strtol_form:
  assumes "strtol s = (v, e)" "e \<noteq> 0" "1 \<le> v" "v \<le> 999"
  shows "lax_numeral s v"
proof -
  define ws where "ws = takeWhile isspace s"
  define s1 where "s1 = dropWhile isspace s"
  define neg where "neg \<longleftrightarrow> s1 \<noteq> [] \<and> hd s1 = CHR ''-''"
  define signed where "signed \<longleftrightarrow> s1 \<noteq> [] \<and> (hd s1 = CHR ''-'' \<or> hd s1 = CHR ''+'')"
  define s2 where "s2 = (if signed then tl s1 else s1)"
  define ds where "ds = takeWhile isdigit s2"
  define rest where "rest = dropWhile isdigit s2"
  have st: "strtol s = (if ds = [] then (0, 0)
         else (max LONG_MIN (min LONG_MAX (if neg then - digits_value ds else digits_value ds)),
               length ws + (if signed then 1 else 0) + length ds))"
    unfolding strtol_def Let_def ws_def s1_def neg_def signed_def s2_def ds_def by (rule refl)
  have ne: "ds \<noteq> []" using st assms(1,2) by auto
  have dg: "list_all isdigit ds" unfolding ds_def list_all_iff by (auto dest: set_takeWhileD)
  have nn: "0 \<le> digits_value ds" using dg by (rule digits_value_nonneg)
  have v: "v = max LONG_MIN (min LONG_MAX (if neg then - digits_value ds else digits_value ds))"
    using st ne assms(1) by simp
  have nneg: "\<not> neg"
  proof
    assume neg
    then have "v \<le> 0" using v nn by (simp add: LONG_MIN_def LONG_MAX_def)
    with assms(3) show False by simp
  qed
  have val: "digits_value ds = v"
    using clamp_in_range(2) [OF nn] v nneg assms(3,4) by simp
  define sg where "sg = (if signed then ''+'' else [])"
  have s1: "s1 = sg @ s2"
  proof (cases signed)
    case True
    with nneg have "s1 \<noteq> []" "hd s1 = CHR ''+''" by (auto simp: signed_def neg_def)
    then show ?thesis using True by (cases s1) (simp_all add: sg_def s2_def)
  next
    case False
    then show ?thesis by (simp add: sg_def s2_def)
  qed
  have "s = ws @ s1" by (simp add: ws_def s1_def)
  moreover have "s2 = ds @ rest" by (simp add: ds_def rest_def)
  ultimately have dec: "s = ws @ sg @ ds @ rest" using s1 by simp
  have w: "list_all isspace ws" unfolding ws_def list_all_iff by (auto dest: set_takeWhileD)
  have r: "rest = [] \<or> \<not> isdigit (hd rest)"
    unfolding rest_def using hd_dropWhile [of isdigit s2] by blast
  have "sg = [] \<or> sg = ''+''" by (simp add: sg_def)
  with dec w r ne dg val show ?thesis
    unfolding lax_numeral_def decimal_string_def by blast
qed

lemma accepted_has_form:
  assumes "floor_num_handler f = Some i"
  shows "accepted_form f i"
proof (cases f)
  case Nil
  with assms show ?thesis by (simp add: floor_num_handler_def)
next
  case (Cons c t)
  show ?thesis
  proof (cases "c = CHR ''b'' \<or> c = CHR ''B''")
    case True
    obtain v e where st: "strtol t = (v, e)" by (cases "strtol t")
    with assms Cons True have "e \<noteq> 0" "1 \<le> v" "v \<le> 99" "i = - v"
      by (auto simp: floor_num_handler_def split: if_splits)
    moreover from this st have "lax_numeral t v" by (intro strtol_form) simp_all
    ultimately show ?thesis using True by (simp add: accepted_form_def Cons)
  next
    case False
    obtain v e where st: "strtol f = (v, e)" by (cases "strtol f")
    with assms Cons False have "e \<noteq> 0" "1 \<le> v" "v \<le> 999" "i = v"
      by (auto simp: floor_num_handler_def split: if_splits)
    moreover from this st have "lax_numeral f v" by (intro strtol_form) simp_all
    ultimately show ?thesis using False by (simp add: accepted_form_def Cons)
  qed
qed

lemma strtol_lax:
  assumes "lax_numeral s v" "1 \<le> v" "v \<le> 999"
  shows "\<exists>e. strtol s = (v, e) \<and> e \<noteq> 0"
proof -
  from assms(1) obtain ws sg ds rest where
    s: "s = ws @ sg @ ds @ rest" and ws: "list_all isspace ws"
    and sg: "sg = [] \<or> sg = ''+''" and ds: "decimal_string ds"
    and rest: "rest = [] \<or> \<not> isdigit (hd rest)" and v: "digits_value ds = v"
    unfolding lax_numeral_def by blast
  from ds have ne: "ds \<noteq> []" and dg: "list_all isdigit ds"
    by (simp_all add: decimal_string_def)
  define x where "x = sg @ ds @ rest"
  have hdds: "isdigit (hd ds)" using ne dg by (cases ds) simp_all
  have nd: "\<not> isspace (hd ds)" "hd ds \<noteq> CHR ''-''" "hd ds \<noteq> CHR ''+''"
    using hdds isdigit_facts by blast+
  have plus: "\<not> isspace CHR ''+''" by (simp add: isspace_def)
  have xne: "x \<noteq> []" using ne by (simp add: x_def)
  have hx: "\<not> isspace (hd x)" using sg ne nd(1) plus by (auto simp: x_def)
  have d1: "dropWhile isspace s = x"
  proof -
    have "dropWhile isspace (ws @ x) = dropWhile isspace x"
      using ws by (intro dropWhile_append2) (simp add: list_all_iff)
    also have "\<dots> = x" using xne hx by (cases x) simp_all
    finally show ?thesis by (simp add: s x_def)
  qed
  have tw: "takeWhile isdigit (ds @ rest) = ds"
  proof -
    have "takeWhile isdigit (ds @ rest) = ds @ takeWhile isdigit rest"
      using dg by (intro takeWhile_append2) (simp add: list_all_iff)
    moreover have "takeWhile isdigit rest = []" using rest by (cases rest) auto
    ultimately show ?thesis by simp
  qed
  have cl: "max LONG_MIN (min LONG_MAX (digits_value ds)) = v"
    using assms(2,3) v by (simp add: LONG_MIN_def LONG_MAX_def)
  from sg show ?thesis
  proof
    assume "sg = []"
    then have x: "x = ds @ rest" by (simp add: x_def)
    have "strtol s = (max LONG_MIN (min LONG_MAX (digits_value ds)),
        length (takeWhile isspace s) + length ds)"
      unfolding strtol_def Let_def d1 x using ne nd tw by simp
    with cl ne show ?thesis by simp
  next
    assume "sg = ''+''"
    then have x: "x = CHR ''+'' # ds @ rest" by (simp add: x_def)
    have "strtol s = (max LONG_MIN (min LONG_MAX (digits_value ds)),
        length (takeWhile isspace s) + 1 + length ds)"
      unfolding strtol_def Let_def d1 x using ne tw by simp
    with cl show ?thesis by simp
  qed
qed

lemma form_accepted:
  assumes "accepted_form f i"
  shows "floor_num_handler f = Some i"
proof (cases f)
  case Nil
  with assms show ?thesis by (simp add: accepted_form_def)
next
  case (Cons c t)
  show ?thesis
  proof (cases "c = CHR ''b'' \<or> c = CHR ''B''")
    case True
    with assms Cons have l: "lax_numeral t (- i)" "1 \<le> - i" "- i \<le> 99"
      by (simp_all add: accepted_form_def)
    from strtol_lax [OF l(1,2)] l(3) obtain e where "strtol t = (- i, e)" "e \<noteq> 0" by auto
    with l True show ?thesis by (auto simp: floor_num_handler_def Cons)
  next
    case False
    with assms Cons have l: "lax_numeral f i" "1 \<le> i" "i \<le> 999"
      by (simp_all add: accepted_form_def)
    from strtol_lax [OF l] obtain e where "strtol f = (i, e)" "e \<noteq> 0" by auto
    with l False show ?thesis by (auto simp: floor_num_handler_def Cons)
  qed
qed

text \<open>
  C3 (as amended). Every valid floor label (a decimal string denoting 1..999, or
  \<open>B\<close> followed by a decimal string denoting 1..99) is parsed by
  \<open>floor_num_handler\<close> to a nonzero index, negative exactly for the \<open>B\<close> labels;
  \<open>index_handler\<close> applied to that index gives a valid label without leading zero
  that parses back to the same index, and it gives the original label back when
  that has no leading zero. A leading lower-case \<open>b\<close> is read as \<open>B\<close>. The strings
  that \<open>floor_num_handler\<close> accepts are exactly those made of an optional \<open>B\<close> or
  \<open>b\<close>, optional white space, an optional plus sign and a decimal string denoting
  1..999 (1..99 after the letter), which ends the string or is followed by a
  character that is not a digit; such a string is parsed to the number denoted,
  negated after the letter, and that index is never zero. Every other string is
  rejected, among them every string without a digit and every string of digits,
  also after \<open>B\<close> or \<open>b\<close>, that denotes a number outside the range.
\<close>

theorem C3_floor_label_round_trip:
  "(valid_floor_label l \<longrightarrow>
      (\<exists>i. floor_num_handler l = Some i \<and> i \<noteq> 0 \<and> (i < 0 \<longleftrightarrow> hd l = CHR ''B'') \<and>
           valid_floor_label (index_handler i) \<and> \<not> leading_zero (index_handler i) \<and>
           floor_num_handler (index_handler i) = Some i \<and>
           (\<not> leading_zero l \<longrightarrow> index_handler i = l))) \<and>
   floor_num_handler (CHR ''b'' # t) = floor_num_handler (CHR ''B'' # t) \<and>
   (floor_num_handler s = Some j) = accepted_form s j \<and>
   (floor_num_handler s = Some j \<longrightarrow>
      j \<noteq> 0 \<and> - 99 \<le> j \<and> j \<le> 999 \<and>
      valid_floor_label (index_handler j) \<and> floor_num_handler (index_handler j) = Some j) \<and>
   (list_all (\<lambda>c. \<not> isdigit c) f \<longrightarrow> floor_num_handler f = None) \<and>
   (list_all isdigit ds \<and> \<not> (1 \<le> digits_value ds \<and> digits_value ds \<le> 999) \<longrightarrow>
      floor_num_handler ds = None) \<and>
   (list_all isdigit ds \<and> \<not> (1 \<le> digits_value ds \<and> digits_value ds \<le> 99) \<longrightarrow>
      floor_num_handler (CHR ''B'' # ds) = None \<and> floor_num_handler (CHR ''b'' # ds) = None)"
proof -
  have b: "floor_num_handler (CHR ''b'' # u) = floor_num_handler (CHR ''B'' # u)" for u
    by (simp add: floor_num_handler_def)
  have 1: "\<exists>i. floor_num_handler l = Some i \<and> i \<noteq> 0 \<and> (i < 0 \<longleftrightarrow> hd l = CHR ''B'') \<and>
           valid_floor_label (index_handler i) \<and> \<not> leading_zero (index_handler i) \<and>
           floor_num_handler (index_handler i) = Some i \<and>
           (\<not> leading_zero l \<longrightarrow> index_handler i = l)" if v: "valid_floor_label l"
  proof -
    from valid_label_accepted [OF v] obtain i where
      i: "floor_num_handler l = Some i" "i \<noteq> 0" "i < 0 \<longleftrightarrow> hd l = CHR ''B''" by blast
    have "index_handler i = l" if "\<not> leading_zero l"
      using canonical_label_round_trip [OF v that] i(1) by auto
    with i accepted_index_valid [OF i(1)] show ?thesis by blast
  qed
  have 3: "j \<noteq> 0 \<and> - 99 \<le> j \<and> j \<le> 999 \<and>
      valid_floor_label (index_handler j) \<and> floor_num_handler (index_handler j) = Some j"
    if "floor_num_handler s = Some j"
    using accepted_index_valid [OF that] by simp
  have 4: "(floor_num_handler s = Some j) = accepted_form s j"
    using accepted_has_form [of s j] form_accepted [of s j] by blast
  from 1 3 4 b [of t] b [of ds] no_digit_rejected [of f] out_of_range_rejected [of ds]
    out_of_range_basement_rejected [of ds]
  show ?thesis by (intro conjI impI) auto
qed

theorem C3_floor_label_round_trip_witness:
  "valid_floor_label ''B12'' \<and> floor_num_handler ''B12'' = Some (- 12) \<and>
   index_handler (- 12) = ''B12'' \<and>
   floor_num_handler ''b7'' = Some (- 7) \<and> accepted_form ''b7'' (- 7) \<and>
   valid_floor_label (index_handler (- 7)) \<and>
   floor_num_handler ''x-y'' = None \<and> floor_num_handler ''1000'' = None \<and>
   floor_num_handler ''B100'' = None \<and> floor_num_handler ''b0'' = None"
proof -
  have a: "valid_floor_label ''B12''" "\<not> leading_zero ''B12''" by code_simp+
  have b: "floor_num_handler ''b7'' = Some (- 7)" by code_simp
  have c: "floor_num_handler ''B12'' = Some (- 12)" by code_simp
  have d: "list_all (\<lambda>c. \<not> isdigit c) ''x-y''" by code_simp
  have e: "list_all isdigit ''1000'' \<and> \<not> (1 \<le> digits_value ''1000'' \<and> digits_value ''1000'' \<le> 999)"
    by code_simp
  have f: "list_all isdigit ''100'' \<and> \<not> (1 \<le> digits_value ''100'' \<and> digits_value ''100'' \<le> 99)"
    by code_simp
  have g: "list_all isdigit ''0'' \<and> \<not> (1 \<le> digits_value ''0'' \<and> digits_value ''0'' \<le> 99)"
    by code_simp
  from C3_floor_label_round_trip [of "''B12''" "[]" "''b7''" "- 7" "''x-y''" "''1000''"] a b d e
  have 1: "(\<exists>i. floor_num_handler ''B12'' = Some i \<and> index_handler i = ''B12'') \<and>
        accepted_form ''b7'' (- 7) \<and> valid_floor_label (index_handler (- 7)) \<and>
        floor_num_handler ''x-y'' = None \<and> floor_num_handler ''1000'' = None"
    by blast
  from C3_floor_label_round_trip [of "[]" "[]" "[]" 0 "[]" "''100''"] f
  have 2: "floor_num_handler ''B100'' = None" by blast
  from C3_floor_label_round_trip [of "[]" "[]" "[]" 0 "[]" "''0''"] g
  have 3: "floor_num_handler ''b0'' = None" by blast
  from a b c 1 2 3 show ?thesis by auto
qed

text \<open>
  C3 as stated fails in both parts. \<open>007\<close> is a decimal string denoting 7, and the
  way from the label to the index and back gives \<open>7\<close>, not the label. \<open>b5\<close>, with
  a lower-case letter, is outside the grammar, and \<open>floor_num_handler\<close> accepts it
  as basement floor 5; it accepts \<open>+5\<close> and \<open>5x\<close> as well.
\<close>

theorem C3_round_trip_and_rejection_fail:
  "valid_floor_label ''007'' \<and> floor_num_handler ''007'' = Some 7 \<and>
   index_handler 7 = ''7'' \<and>
   \<not> valid_floor_label ''b5'' \<and> floor_num_handler ''b5'' = Some (- 5) \<and>
   \<not> valid_floor_label ''+5'' \<and> floor_num_handler ''+5'' = Some 5 \<and>
   \<not> valid_floor_label ''5x'' \<and> floor_num_handler ''5x'' = Some 5"
  by code_simp

section \<open>The safety monitor on a consistent block\<close>

text \<open>
  C1. The claim: with \<open>emergency_mode = 0\<close> the validation sets \<open>emergency_mode := 1\<close>
  exactly when one of invariants 1 to 4 fails, and a block satisfying all four
  passes unchanged. The code does otherwise: its obstruction test reads
  \<open>door_obstruction == 1 || status is Closing or Opening\<close>, so an idle car (doors
  closed, no obstruction, every invariant satisfied) is put into emergency mode
  with a consistency notice, both by the validation alone and by a whole pass of
  the monitor; and the same car with \<open>door_obstruction = 1\<close>, which breaks
  invariant 4, passes the validation unchanged.
\<close>

theorem C1_idle_car_forced_into_emergency:
  "invariants_1_to_4 idle_car \<and> emergency_mode idle_car = 0 \<and>
   validate idle_car = (idle_car\<lparr>emergency_mode := 1\<rparr>, Some ConsistencyError) \<and>
   safety_wakeup idle_car = (idle_car\<lparr>emergency_mode := 1\<rparr>, Some ConsistencyError) \<and>
   \<not> invariants_1_to_4 (idle_car\<lparr>door_obstruction := 1\<rparr>) \<and>
   validate (idle_car\<lparr>door_obstruction := 1\<rparr>) = (idle_car\<lparr>door_obstruction := 1\<rparr>, None)"
  by (simp add: invariants_1_to_4_def idle_car_def validate_def safety_wakeup_def
      is_valid_status_def are_valid_fields_def is_valid_obstruction_def floor_num_handler_1)

theorem C1_idle_car_forced_into_emergency_witness:
  "fst (validate idle_car) = idle_car\<lparr>emergency_mode := 1\<rparr> \<and>
   emergency_mode (fst (safety_wakeup idle_car)) = 1"
  using C1_idle_car_forced_into_emergency by simp

section \<open>The safety counter of the transmit thread\<close>

lemma wait_loop_timed_out:
  "g_tx_flag st = 0 \<Longrightarrow> g_shutdown st = 0 \<Longrightarrow>
   wait_loop (replicate n Timed_out) st = (st, [], True)"
  by (induction n) (simp_all add: pthread_cond_timedwait_def)

lemma wait_loop_frame:
  "wait_loop ws st = (st1, ws1, waiting) \<Longrightarrow>
   g_shm st1 = g_shm st \<and> clock_reads st1 = clock_reads st \<and> link_up st1 = link_up st \<and>
   sent st1 = sent st \<and> (\<not> waiting \<longrightarrow> g_tx_flag st1 \<noteq> 0 \<or> g_shutdown st1 \<noteq> 0)"
proof (induction ws arbitrary: st)
  case Nil
  then show ?case by auto
next
  case (Cons w ws)
  show ?case
  proof (cases "g_tx_flag st \<noteq> 0")
    case True
    with Cons.prems show ?thesis by auto
  next
    case False
    have fr: "g_shm (pthread_cond_timedwait w st) = g_shm st"
      "clock_reads (pthread_cond_timedwait w st) = clock_reads st"
      "link_up (pthread_cond_timedwait w st) = link_up st"
      "sent (pthread_cond_timedwait w st) = sent st"
      by (simp_all add: pthread_cond_timedwait_def split: wakeup.splits)
    show ?thesis
    proof (cases "g_shutdown (pthread_cond_timedwait w st) \<noteq> 0")
      case True
      with False Cons.prems fr show ?thesis by (auto simp: Let_def)
    next
      case shut: False
      with False Cons.prems
      have "wait_loop ws (pthread_cond_timedwait w st) = (st1, ws1, waiting)"
        by (simp add: Let_def)
      from Cons.IH [OF this] fr show ?thesis by simp
    qed
  qed
qed

lemma after_wait_shutdown:
  "g_shutdown st \<noteq> 0 \<Longrightarrow> after_wait delay clock st = (st\<lparr>g_tx_flag := 0\<rparr>, True)"
  by (simp add: after_wait_def Let_def)

lemma mode_check_frame:
  "g_shm (fst (mode_check st)) = g_shm st \<and> clock_reads (fst (mode_check st)) = clock_reads st"
  by (simp add: mode_check_def send_frame_def)

lemma after_wait_status:
  assumes "g_shutdown st = 0" "g_tx_flag st \<noteq> 0"
    and "\<not> timeout_reached (clock (Suc (clock_reads st)))
            (abs_timeout_ms (clock (clock_reads st)) delay)"
  shows "g_shm (fst (after_wait delay clock st)) = g_shm st \<and>
         (\<not> snd (after_wait delay clock st) \<longrightarrow>
          clock_reads (fst (after_wait delay clock st)) = clock_reads st + 2)"
proof -
  define st1 where "st1 = st\<lparr>g_tx_flag := 0\<rparr>"
  have aw: "after_wait delay clock st =
      (case send_status delay clock (g_tx_flag st) st1 of
         (st2, True) \<Rightarrow> (st2, True)
       | (st2, False) \<Rightarrow>
           (case timeout_check delay clock st2 of
              (st3, True) \<Rightarrow> (st3, True)
            | (st3, False) \<Rightarrow> mode_check st3))"
    using assms(1) by (simp add: after_wait_def Let_def st1_def)
  show ?thesis
  proof (cases "link_up st")
    case False
    then have "send_status delay clock (g_tx_flag st) st1 = (st1, True)"
      using assms(2) by (simp add: send_status_def post_status_def send_frame_def st1_def)
    then have r: "after_wait delay clock st = (st1, True)" using aw by simp
    show ?thesis by (simp add: r st1_def)
  next
    case True
    define st2 where "st2 = reset_timeout delay clock (snd (post_status st1))"
    have ss: "send_status delay clock (g_tx_flag st) st1 = (st2, False)"
      using assms(2) True
      by (simp add: send_status_def post_status_def send_frame_def st1_def st2_def)
    have st2: "g_shm st2 = g_shm st" "clock_reads st2 = Suc (clock_reads st)"
      "transmit_timeout st2 = abs_timeout_ms (clock (clock_reads st)) delay"
      using True
      by (simp_all add: st2_def reset_timeout_def clock_gettime_def post_status_def
          send_frame_def st1_def)
    have tc: "timeout_check delay clock st2 = (st2\<lparr>clock_reads := clock_reads st2 + 1\<rparr>, False)"
      using assms(3) st2 by (simp add: timeout_check_def clock_gettime_def)
    have r: "after_wait delay clock st = mode_check (st2\<lparr>clock_reads := clock_reads st2 + 1\<rparr>)"
      using aw ss tc by simp
    show ?thesis
      using mode_check_frame [of "st2\<lparr>clock_reads := clock_reads st2 + 1\<rparr>"] st2
      by (simp add: r)
  qed
qed

text \<open>
  As long as, in each pass, the clock read for the test has not reached the timeout
  set just before from the previous reading, no pass changes the block. The count
  of readings is odd whenever the thread is at the head of its loop.
\<close>

lemma tcp_transmit_loop_frame:
  "\<forall>k. \<not> timeout_reached (clock (2 * k + 2)) (abs_timeout_ms (clock (2 * k + 1)) delay) \<Longrightarrow>
   odd (clock_reads st) \<Longrightarrow>
   g_shm (fst (tcp_transmit_loop delay clock ws st)) = g_shm st"
proof (induction delay clock ws st rule: tcp_transmit_loop.induct)
  case (1 delay clock ws st)
  note H = "1.prems"(1)
  show ?case
  proof (cases "g_shutdown st \<noteq> 0")
    case True
    then show ?thesis by (simp add: tcp_transmit_loop.simps)
  next
    case False
    obtain st1 ws1 waiting where w: "wait_loop ws st = (st1, ws1, waiting)"
      by (cases "wait_loop ws st") auto
    note fr = wait_loop_frame [OF w]
    show ?thesis
    proof (cases waiting)
      case True
      with False w fr show ?thesis by (simp add: tcp_transmit_loop.simps)
    next
      case nw: False
      obtain st2 left where a: "after_wait delay clock st1 = (st2, left)"
        by (cases "after_wait delay clock st1") auto
      have loop: "tcp_transmit_loop delay clock ws st =
          (if left then (st2, Returned) else tcp_transmit_loop delay clock ws1 st2)"
        using False w nw a by (simp add: tcp_transmit_loop.simps)
      show ?thesis
      proof (cases "g_shutdown st1 \<noteq> 0")
        case True
        from after_wait_shutdown [OF True, of delay clock] a
        have "st2 = st1\<lparr>g_tx_flag := 0\<rparr>" "left" by simp_all
        with loop fr show ?thesis by simp
      next
        case ns: False
        with fr nw have fl: "g_tx_flag st1 \<noteq> 0" by simp
        from "1.prems"(2) fr obtain k where k: "clock_reads st1 = 2 * k + 1"
          by (auto elim: oddE)
        have "\<not> timeout_reached (clock (2 * k + 2)) (abs_timeout_ms (clock (2 * k + 1)) delay)"
          using H by blast
        then have nt: "\<not> timeout_reached (clock (Suc (clock_reads st1)))
            (abs_timeout_ms (clock (clock_reads st1)) delay)"
          by (simp add: k)
        from ns have ns': "g_shutdown st1 = 0" by simp
        note aws = after_wait_status [OF ns' fl nt]
        have shm2: "g_shm st2 = g_shm st" using aws a fr by simp
        show ?thesis
        proof (cases left)
          case True
          with loop shm2 show ?thesis by simp
        next
          case nl: False
          have "clock_reads st2 = clock_reads st1 + 2" using aws a nl by simp
          then have odd2: "odd (clock_reads st2)" using k by simp
          have "g_shm (fst (tcp_transmit_loop delay clock ws1 st2)) = g_shm st2"
            using "1.IH" [OF False w [symmetric] refl nw a [symmetric] nl H odd2] .
          with loop nl shm2 show ?thesis by simp
        qed
      qed
    qed
  qed
qed

lemma timeout_check_counts:
  assumes "timeout_reached (clock (clock_reads st)) (transmit_timeout st)"
  shows "safety_system (g_shm (fst (timeout_check delay clock st))) = safety_system (g_shm st) + 1"
    and "snd (timeout_check delay clock st) = (3 \<le> uint (safety_system (g_shm st)) + 1)"
  using assms
  by (simp_all add: timeout_check_def clock_gettime_def safety_tick_def Let_def
      send_frame_def reset_timeout_def)

text \<open>
  C2. The claim: from a healthy block, whose counter is 1, each period of \<open>delay\<close>
  milliseconds without a status event increments the counter \<open>safety_system\<close>, and
  on the third consecutive one the car sets \<open>emergency_mode\<close>, sends EMERGENCY and
  ends the link. The code does otherwise: a timed wait that comes back with no
  status event sends the thread round its wait loop
  \<open>while (!g_tx_flag)\<close> again, so that after any number of such periods the block is
  as it was, nothing has been sent and the thread is still waiting. The counter is
  incremented only by the test of the timeout, which a pass reaches only after a
  status event, when the timeout has just been set \<open>delay\<close> milliseconds ahead of the
  clock: whatever the wake-ups, the block is never changed by a thread that reads
  the clock for the test before that timeout, although that test does count, and
  leaves the loop at three, when the timeout has been reached.
\<close>

theorem C2_missed_periods_never_counted:
  "(g_tx_flag st = 0 \<and> g_shutdown st = 0 \<longrightarrow>
      tcp_transmit_thread delay clock (replicate n Timed_out) st =
        (reset_timeout delay clock st, Waiting) \<and>
      g_shm (reset_timeout delay clock st) = g_shm st \<and>
      sent (reset_timeout delay clock st) = sent st) \<and>
   (clock_reads st = 0 \<and>
    (\<forall>k. \<not> timeout_reached (clock (2 * k + 2)) (abs_timeout_ms (clock (2 * k + 1)) delay)) \<longrightarrow>
      g_shm (fst (tcp_transmit_thread delay clock ws st)) = g_shm st) \<and>
   (timeout_reached (clock (clock_reads st)) (transmit_timeout st) \<longrightarrow>
      safety_system (g_shm (fst (timeout_check delay clock st))) = safety_system (g_shm st) + 1 \<and>
      snd (timeout_check delay clock st) = (3 \<le> uint (safety_system (g_shm st)) + 1))"
proof -
  define st0 where "st0 = reset_timeout delay clock st"
  have fr: "g_shm st0 = g_shm st" "sent st0 = sent st" "g_tx_flag st0 = g_tx_flag st"
    "g_shutdown st0 = g_shutdown st" "clock_reads st0 = clock_reads st + 1"
    by (simp_all add: st0_def reset_timeout_def clock_gettime_def)
  have a: "tcp_transmit_thread delay clock (replicate n Timed_out) st = (st0, Waiting)"
    if "g_tx_flag st = 0" "g_shutdown st = 0"
  proof -
    have "wait_loop (replicate n Timed_out) st0 = (st0, [], True)"
      using that fr by (intro wait_loop_timed_out) simp_all
    then show ?thesis
      using that fr by (simp add: tcp_transmit_thread_def st0_def [symmetric] tcp_transmit_loop.simps)
  qed
  have b: "g_shm (fst (tcp_transmit_thread delay clock ws st)) = g_shm st"
    if "clock_reads st = 0"
      "\<forall>k. \<not> timeout_reached (clock (2 * k + 2)) (abs_timeout_ms (clock (2 * k + 1)) delay)"
  proof -
    have "odd (clock_reads st0)" using that(1) fr by simp
    from tcp_transmit_loop_frame [OF that(2) this, of ws] fr
    show ?thesis by (simp add: tcp_transmit_thread_def st0_def [symmetric])
  qed
  from a b fr timeout_check_counts [of clock st delay]
  show ?thesis unfolding st0_def by (intro conjI impI) auto
qed

theorem C2_missed_periods_never_counted_witness:
  "snd (tcp_transmit_thread 1000 paired_clock [Timed_out, Timed_out, Timed_out] idle_thread)
     = Waiting \<and>
   g_shm (fst (tcp_transmit_thread 1000 paired_clock [Timed_out, Timed_out, Timed_out]
     idle_thread)) = idle_car \<and>
   safety_system idle_car = 1 \<and> emergency_mode idle_car = 0 \<and>
   sent (fst (tcp_transmit_thread 1000 paired_clock [Timed_out, Timed_out, Timed_out]
     idle_thread)) = [] \<and>
   g_shm (fst (tcp_transmit_thread 1000 paired_clock
     [Timed_out, Status_flagged, Timed_out, Timed_out, Timed_out, Status_flagged] idle_thread))
     = idle_car"
proof -
  have r: "replicate 3 Timed_out = [Timed_out, Timed_out, Timed_out]"
    by (simp add: numeral_3_eq_3)
  have h: "\<forall>k. \<not> timeout_reached (paired_clock (2 * k + 2))
      (abs_timeout_ms (paired_clock (2 * k + 1)) 1000)"
    by (simp add: paired_clock_def abs_timeout_ms_def timeout_reached_def)
  have i: "g_tx_flag idle_thread = 0" "g_shutdown idle_thread = 0" "clock_reads idle_thread = 0"
    "g_shm idle_thread = idle_car" "sent idle_thread = []"
    by (simp_all add: idle_thread_def)
  have c: "safety_system idle_car = 1" "emergency_mode idle_car = 0"
    by (simp_all add: idle_car_def)
  from C2_missed_periods_never_counted [of idle_thread 1000 paired_clock 3
      "[Timed_out, Status_flagged, Timed_out, Timed_out, Timed_out, Status_flagged]"] r h i
  have "tcp_transmit_thread 1000 paired_clock [Timed_out, Timed_out, Timed_out] idle_thread =
        (reset_timeout 1000 paired_clock idle_thread, Waiting) \<and>
      g_shm (reset_timeout 1000 paired_clock idle_thread) = idle_car \<and>
      sent (reset_timeout 1000 paired_clock idle_thread) = [] \<and>
      g_shm (fst (tcp_transmit_thread 1000 paired_clock
        [Timed_out, Status_flagged, Timed_out, Timed_out, Timed_out, Status_flagged] idle_thread))
        = idle_car"
    by simp
  with c show ?thesis by simp
qed

section \<open>Service mode and the internal panel\<close>

lemma floor_num_handler_B1: "floor_num_handler ''B1'' = Some (- 1)"
  by code_simp

lemma index_handler_1: "index_handler 1 = ''1''"
  by code_simp

text \<open>
  C8. The claim: in service mode with the doors closed, a destination one floor
  from the current floor, counted with index 0 skipped as the panel's \<open>up\<close> and
  \<open>down\<close> count, makes the car move one floor. The code does otherwise between B1
  and 1: the panel's \<open>up\<close> at B1 writes destination 1, and \<open>service_between\<close>, which
  tests \<open>destination == current + 1 || destination == current - 1\<close> on the indices
  -1 and 1, resets the destination to B1 and does not move, whatever the car's
  range. \<open>next_floor\<close>, which the move itself uses, does skip index 0.
\<close>

theorem C8_service_mode_cannot_leave_B1_for_1:
  "internal_main b1_car ''up'' = (b1_car\<lparr>destination_floor := ''1''\<rparr>, 0) \<and>
   service_between lo hi (b1_car\<lparr>destination_floor := ''1''\<rparr>) = b1_car \<and>
   next_floor (- 1) 1 = 1"
  by (simp add: internal_main_def internal_steps_def service_between_def b1_car_def
      floor_num_handler_B1 index_handler_1 floor_or_zero_def floor_num_handler_1 next_floor_def)

theorem C8_service_mode_cannot_leave_B1_for_1_witness:
  "service_between (- 5) 10 (fst (internal_main b1_car ''up'')) = b1_car"
  using C8_service_mode_cannot_leave_B1_for_1 [of "- 5" 10] by simp

text \<open>
  C9 (as amended). Every panel operation locks the mutex first and unlocks it last,
  and what it stores, it stores in between. A successful operation stores into its
  own field of the block and into no other, then broadcasts, and exits with status
  0: \<open>open\<close>, \<open>close\<close>, \<open>stop\<close> and \<open>service_off\<close> store one flag, \<open>up\<close> and \<open>down\<close> the
  destination floor; \<open>service_on\<close> stores two fields, for it sets
  \<open>individual_service_mode\<close> and also clears \<open>emergency_mode\<close>; \<open>up\<close> and \<open>down\<close> in
  service mode with status Closed store nothing when the current floor does not
  parse, and broadcast and exit with status 0 all the same. \<open>up\<close> and \<open>down\<close> outside
  service mode or with a status other than Closed, and any other operation name,
  store nothing, do not broadcast, exit with status 1 and leave the block as it
  was.
\<close>

theorem C9_panel_operation_frame:
  "internal_steps sh ''open'' =
     ([Mutex_lock, Store_open_button 1, Cond_broadcast, Mutex_unlock], 0) \<and>
   internal_main sh ''open'' = (sh\<lparr>open_button := 1\<rparr>, 0) \<and>
   internal_steps sh ''close'' =
     ([Mutex_lock, Store_close_button 1, Cond_broadcast, Mutex_unlock], 0) \<and>
   internal_main sh ''close'' = (sh\<lparr>close_button := 1\<rparr>, 0) \<and>
   internal_steps sh ''stop'' =
     ([Mutex_lock, Store_emergency_stop 1, Cond_broadcast, Mutex_unlock], 0) \<and>
   internal_main sh ''stop'' = (sh\<lparr>emergency_stop := 1\<rparr>, 0) \<and>
   internal_steps sh ''service_on'' =
     ([Mutex_lock, Store_individual_service_mode 1, Store_emergency_mode 0, Cond_broadcast,
       Mutex_unlock], 0) \<and>
   internal_main sh ''service_on'' =
     (sh\<lparr>individual_service_mode := 1, emergency_mode := 0\<rparr>, 0) \<and>
   internal_steps sh ''service_off'' =
     ([Mutex_lock, Store_individual_service_mode 0, Cond_broadcast, Mutex_unlock], 0) \<and>
   internal_main sh ''service_off'' = (sh\<lparr>individual_service_mode := 0\<rparr>, 0) \<and>
   (operation = ''up'' \<or> operation = ''down'' \<longrightarrow>
      (individual_service_mode sh = 0 \<or> status sh \<noteq> ''Closed'' \<longrightarrow>
         internal_steps sh operation = ([Mutex_lock, Mutex_unlock], 1) \<and>
         internal_main sh operation = (sh, 1)) \<and>
      (individual_service_mode sh \<noteq> 0 \<and> status sh = ''Closed'' \<and>
       floor_num_handler (current_floor sh) \<noteq> None \<longrightarrow>
         (\<exists>d. internal_steps sh operation =
                 ([Mutex_lock, Store_destination_floor d, Cond_broadcast, Mutex_unlock], 0) \<and>
              internal_main sh operation = (sh\<lparr>destination_floor := d\<rparr>, 0))) \<and>
      (individual_service_mode sh \<noteq> 0 \<and> status sh = ''Closed'' \<and>
       floor_num_handler (current_floor sh) = None \<longrightarrow>
         internal_steps sh operation = ([Mutex_lock, Cond_broadcast, Mutex_unlock], 0) \<and>
         internal_main sh operation = (sh, 0))) \<and>
   (operation \<notin> {''open'', ''close'', ''stop'', ''service_on'', ''service_off'', ''up'', ''down''} \<longrightarrow>
      internal_steps sh operation = ([Mutex_lock, Mutex_unlock], 1) \<and>
      internal_main sh operation = (sh, 1))"
proof -
  have fixed:
    "internal_steps sh ''open'' =
       ([Mutex_lock, Store_open_button 1, Cond_broadcast, Mutex_unlock], 0)"
    "internal_steps sh ''close'' =
       ([Mutex_lock, Store_close_button 1, Cond_broadcast, Mutex_unlock], 0)"
    "internal_steps sh ''stop'' =
       ([Mutex_lock, Store_emergency_stop 1, Cond_broadcast, Mutex_unlock], 0)"
    "internal_steps sh ''service_on'' =
       ([Mutex_lock, Store_individual_service_mode 1, Store_emergency_mode 0, Cond_broadcast,
         Mutex_unlock], 0)"
    "internal_steps sh ''service_off'' =
       ([Mutex_lock, Store_individual_service_mode 0, Cond_broadcast, Mutex_unlock], 0)"
    by (simp_all add: internal_steps_def)
  have moved: "internal_steps sh operation = ([Mutex_lock, Mutex_unlock], 1)"
    if "operation = ''up'' \<or> operation = ''down''"
      "individual_service_mode sh = 0 \<or> status sh \<noteq> ''Closed''"
  proof -
    from that(1) show ?thesis
    proof
      assume "operation = ''up''"
      then show ?thesis using that(2) by (auto simp add: internal_steps_def)
    next
      assume "operation = ''down''"
      then show ?thesis using that(2) by (auto simp add: internal_steps_def)
    qed
  qed
  have stored: "\<exists>d. internal_steps sh operation =
                 ([Mutex_lock, Store_destination_floor d, Cond_broadcast, Mutex_unlock], 0)"
    if "operation = ''up'' \<or> operation = ''down''"
      "individual_service_mode sh \<noteq> 0" "status sh = ''Closed''"
      "floor_num_handler (current_floor sh) \<noteq> None"
  proof -
    from that(4) obtain current where c: "floor_num_handler (current_floor sh) = Some current"
      by blast
    from that(1) show ?thesis
    proof
      assume "operation = ''up''"
      then show ?thesis using that(2,3) c by (simp add: internal_steps_def Let_def)
    next
      assume "operation = ''down''"
      then show ?thesis using that(2,3) c by (simp add: internal_steps_def Let_def)
    qed
  qed
  have unparsed: "internal_steps sh operation = ([Mutex_lock, Cond_broadcast, Mutex_unlock], 0)"
    if "operation = ''up'' \<or> operation = ''down''"
      "individual_service_mode sh \<noteq> 0" "status sh = ''Closed''"
      "floor_num_handler (current_floor sh) = None"
  proof -
    from that(1) show ?thesis
    proof
      assume "operation = ''up''"
      then show ?thesis using that(2,3,4) by (simp add: internal_steps_def)
    next
      assume "operation = ''down''"
      then show ?thesis using that(2,3,4) by (simp add: internal_steps_def)
    qed
  qed
  have other: "internal_steps sh operation = ([Mutex_lock, Mutex_unlock], 1)"
    if "operation \<notin> {''open'', ''close'', ''stop'', ''service_on'', ''service_off'', ''up'', ''down''}"
    using that by (simp add: internal_steps_def)
  have run: "internal_main sh operation = (foldl perform sh steps, rc)"
    if "internal_steps sh operation = (steps, rc)" for operation steps rc
    using that by (simp add: internal_main_def)
  have m1: "internal_main sh ''open'' = (sh\<lparr>open_button := 1\<rparr>, 0)"
    using run [OF fixed(1)] by simp
  have m2: "internal_main sh ''close'' = (sh\<lparr>close_button := 1\<rparr>, 0)"
    using run [OF fixed(2)] by simp
  have m3: "internal_main sh ''stop'' = (sh\<lparr>emergency_stop := 1\<rparr>, 0)"
    using run [OF fixed(3)] by simp
  have m4: "internal_main sh ''service_on'' =
      (sh\<lparr>individual_service_mode := 1, emergency_mode := 0\<rparr>, 0)"
    using run [OF fixed(4)] by simp
  have m5: "internal_main sh ''service_off'' = (sh\<lparr>individual_service_mode := 0\<rparr>, 0)"
    using run [OF fixed(5)] by simp
  have m6: "internal_steps sh operation = ([Mutex_lock, Mutex_unlock], 1) \<and>
      internal_main sh operation = (sh, 1)"
    if "operation = ''up'' \<or> operation = ''down''"
      "individual_service_mode sh = 0 \<or> status sh \<noteq> ''Closed''"
    using moved [OF that] run [OF moved [OF that]] by simp
  have m7: "\<exists>d. internal_steps sh operation =
                 ([Mutex_lock, Store_destination_floor d, Cond_broadcast, Mutex_unlock], 0) \<and>
              internal_main sh operation = (sh\<lparr>destination_floor := d\<rparr>, 0)"
    if "operation = ''up'' \<or> operation = ''down''"
      "individual_service_mode sh \<noteq> 0 \<and> status sh = ''Closed'' \<and>
       floor_num_handler (current_floor sh) \<noteq> None"
  proof -
    from stored [OF that(1)] that(2) obtain d where
      d: "internal_steps sh operation =
            ([Mutex_lock, Store_destination_floor d, Cond_broadcast, Mutex_unlock], 0)"
      by auto
    from run [OF d] have "internal_main sh operation = (sh\<lparr>destination_floor := d\<rparr>, 0)"
      by simp
    with d show ?thesis by blast
  qed
  have m8: "internal_steps sh operation = ([Mutex_lock, Cond_broadcast, Mutex_unlock], 0) \<and>
      internal_main sh operation = (sh, 0)"
    if "operation = ''up'' \<or> operation = ''down''"
      "individual_service_mode sh \<noteq> 0 \<and> status sh = ''Closed'' \<and>
       floor_num_handler (current_floor sh) = None"
  proof -
    from unparsed [OF that(1)] that(2)
    have u: "internal_steps sh operation = ([Mutex_lock, Cond_broadcast, Mutex_unlock], 0)"
      by simp
    from run [OF u] u show ?thesis by simp
  qed
  have m9: "internal_steps sh operation = ([Mutex_lock, Mutex_unlock], 1) \<and>
      internal_main sh operation = (sh, 1)"
    if "operation \<notin> {''open'', ''close'', ''stop'', ''service_on'', ''service_off'', ''up'', ''down''}"
    using other [OF that] run [OF other [OF that]] by simp
  from fixed m1 m2 m3 m4 m5 m6 m7 m8 m9 show ?thesis by blast
qed

theorem C9_panel_operation_frame_witness:
  "internal_steps idle_car ''down'' = ([Mutex_lock, Mutex_unlock], 1) \<and>
   internal_main idle_car ''down'' = (idle_car, 1) \<and>
   internal_steps idle_car ''lift'' = ([Mutex_lock, Mutex_unlock], 1) \<and>
   internal_main idle_car ''lift'' = (idle_car, 1) \<and>
   (\<exists>d. internal_steps b1_car ''down'' =
           ([Mutex_lock, Store_destination_floor d, Cond_broadcast, Mutex_unlock], 0) \<and>
        internal_main b1_car ''down'' = (b1_car\<lparr>destination_floor := d\<rparr>, 0)) \<and>
   internal_steps (b1_car\<lparr>current_floor := ''G''\<rparr>) ''up'' =
     ([Mutex_lock, Cond_broadcast, Mutex_unlock], 0) \<and>
   internal_main (b1_car\<lparr>current_floor := ''G''\<rparr>) ''up'' = (b1_car\<lparr>current_floor := ''G''\<rparr>, 0)"
proof -
  have i: "individual_service_mode idle_car = 0" by (simp add: idle_car_def)
  have b: "individual_service_mode b1_car \<noteq> 0" "status b1_car = ''Closed''"
    "floor_num_handler (current_floor b1_car) \<noteq> None"
    by (simp_all add: b1_car_def floor_num_handler_B1)
  have g: "individual_service_mode (b1_car\<lparr>current_floor := ''G''\<rparr>) \<noteq> 0"
    "status (b1_car\<lparr>current_floor := ''G''\<rparr>) = ''Closed''"
    by (simp_all add: b1_car_def)
  have gn: "floor_num_handler (current_floor (b1_car\<lparr>current_floor := ''G''\<rparr>)) = None"
    by code_simp
  from C9_panel_operation_frame [of idle_car "''down''"] i
  have 1: "internal_steps idle_car ''down'' = ([Mutex_lock, Mutex_unlock], 1) \<and>
           internal_main idle_car ''down'' = (idle_car, 1)" by blast
  from C9_panel_operation_frame [of idle_car "''lift''"]
  have 2: "internal_steps idle_car ''lift'' = ([Mutex_lock, Mutex_unlock], 1) \<and>
           internal_main idle_car ''lift'' = (idle_car, 1)" by simp
  from C9_panel_operation_frame [of b1_car "''down''"] b
  have 3: "\<exists>d. internal_steps b1_car ''down'' =
           ([Mutex_lock, Store_destination_floor d, Cond_broadcast, Mutex_unlock], 0) \<and>
        internal_main b1_car ''down'' = (b1_car\<lparr>destination_floor := d\<rparr>, 0)" by blast
  from C9_panel_operation_frame [of "b1_car\<lparr>current_floor := ''G''\<rparr>" "''up''"] g gn
  have 4: "internal_steps (b1_car\<lparr>current_floor := ''G''\<rparr>) ''up'' =
     ([Mutex_lock, Cond_broadcast, Mutex_unlock], 0) \<and>
   internal_main (b1_car\<lparr>current_floor := ''G''\<rparr>) ''up'' = (b1_car\<lparr>current_floor := ''G''\<rparr>, 0)"
    by blast
  from 1 2 3 4 show ?thesis by blast
qed

text \<open>
  C9 as stated fails at \<open>service_on\<close>: on a car in emergency mode it succeeds and
  changes two fields of the block, \<open>individual_service_mode\<close> and \<open>emergency_mode\<close>.
  It fails as well at \<open>up\<close> on a car in service mode whose current floor does not
  parse: the operation succeeds and changes no field.
\<close>

theorem C9_service_on_changes_two_fields:
  "snd (internal_main (idle_car\<lparr>emergency_mode := 1\<rparr>) ''service_on'') = 0 \<and>
   individual_service_mode (fst (internal_main (idle_car\<lparr>emergency_mode := 1\<rparr>) ''service_on''))
     \<noteq> individual_service_mode (idle_car\<lparr>emergency_mode := 1\<rparr>) \<and>
   emergency_mode (fst (internal_main (idle_car\<lparr>emergency_mode := 1\<rparr>) ''service_on''))
     \<noteq> emergency_mode (idle_car\<lparr>emergency_mode := 1\<rparr>) \<and>
   internal_main (b1_car\<lparr>current_floor := ''G''\<rparr>) ''up'' = (b1_car\<lparr>current_floor := ''G''\<rparr>, 0)"
proof -
  have "floor_num_handler ''G'' = None" by code_simp
  then show ?thesis
    by (simp add: internal_main_def internal_steps_def idle_car_def b1_car_def)
qed

section \<open>The per-car queue: the array and the list\<close>

lemma position_less_iff: "position xs x < length xs \<longleftrightarrow> x \<in> set xs"
  unfolding position_def by (induction xs) auto

lemma nth_position: "x \<in> set xs \<Longrightarrow> xs ! position xs x = x"
  unfolding position_def by (induction xs) auto

lemma position_first:
  "i < length xs \<Longrightarrow> xs ! i = x \<Longrightarrow> x \<notin> set (take i xs) \<Longrightarrow> position xs x = i"
proof -
  assume i: "i < length xs" and x: "xs ! i = x" and n: "x \<notin> set (take i xs)"
  have "xs = take i xs @ x # drop (Suc i) xs"
    by (metis i x id_take_nth_drop)
  then have "takeWhile (\<lambda>y. y \<noteq> x) xs = takeWhile (\<lambda>y. y \<noteq> x) (take i xs @ x # drop (Suc i) xs)"
    by simp
  also have "\<dots> = takeWhile (\<lambda>y. y \<noteq> x) (take i xs)"
    by (rule takeWhile_tail) simp
  also have "\<dots> = take i xs"
    using n by (auto simp: takeWhile_eq_all_conv)
  finally show ?thesis using i by (simp add: position_def)
qed

lemma position_append_in: "x \<in> set xs \<Longrightarrow> position (xs @ ys) x = position xs x"
  unfolding position_def by (induction xs) auto

lemma position_append_last: "x \<notin> set xs \<Longrightarrow> position (xs @ [x]) x = length xs"
  unfolding position_def by (induction xs) auto

lemma remove1_position:
  "x \<in> set xs \<Longrightarrow> remove1 x xs = take (position xs x) xs @ drop (Suc (position xs x)) xs"
  unfolding position_def by (induction xs) auto

lemma in_queue_from_iff:
  "nat (queue_len car) \<le> length (q car) \<Longrightarrow> i \<le> nat (queue_len car) \<Longrightarrow>
   in_queue_from car fnum i \<longleftrightarrow> fnum \<in> set (drop i (queue car))"
proof (induction car fnum i rule: in_queue_from.induct)
  case (1 car fnum i)
  show ?case
  proof (cases "int i < queue_len car")
    case True
    then have i: "i < nat (queue_len car)" by simp
    then have "i < length (queue car)" using "1.prems" by (simp add: queue_def)
    then have d: "drop i (queue car) = queue car ! i # drop (Suc i) (queue car)"
      by (simp add: Cons_nth_drop_Suc)
    have e: "queue car ! i = q car ! i" using i by (simp add: queue_def)
    show ?thesis
    proof (cases "q car ! i = fnum")
      case True
      then show ?thesis using \<open>int i < queue_len car\<close> d e
        by (subst in_queue_from.simps) simp
    next
      case False
      have "in_queue_from car fnum (Suc i) \<longleftrightarrow> fnum \<in> set (drop (Suc i) (queue car))"
        using "1.IH" [OF True False "1.prems"(1)] i by simp
      then show ?thesis using True False d e
        by (subst in_queue_from.simps) auto
    qed
  next
    case False
    then have "i = nat (queue_len car)" using "1.prems" by simp
    then have "drop i (queue car) = []" by (simp add: queue_def)
    then show ?thesis using False by (subst in_queue_from.simps) simp
  qed
qed

lemma queue_ok_nat:
  "queue_ok car \<Longrightarrow>
   nat (queue_len car) \<le> 32 \<and> length (q car) = 32 \<and> queue_len car = int (nat (queue_len car))"
  unfolding queue_ok_def MAX_QUEUE_def by linarith

lemma in_queue_iff: "queue_ok car \<Longrightarrow> in_queue car fnum \<longleftrightarrow> fnum \<in> set (queue car)"
  using in_queue_from_iff [of car 0 fnum] queue_ok_nat [of car] by (simp add: in_queue_def)

lemma length_queue: "queue_ok car \<Longrightarrow> length (queue car) = nat (queue_len car)"
  using queue_ok_nat [of car] by (simp add: queue_def)

lemma queue_queue_floor:
  assumes "queue_ok car"
  shows "queue (queue_floor car fnum) = push (queue car) fnum"
    and "queue_ok (queue_floor car fnum)"
proof -
  define n where "n = nat (queue_len car)"
  have n: "n \<le> 32" "length (q car) = 32" "queue_len car = int n"
    using queue_ok_nat [OF assms] by (simp_all add: n_def)
  show "queue (queue_floor car fnum) = push (queue car) fnum"
  proof (cases "n < 32")
    case True
    then have "take (Suc n) ((q car)[n := fnum]) = take n (q car) @ [fnum]"
      using n by (simp add: take_Suc_conv_app_nth)
    then show ?thesis using True n
      by (simp add: queue_floor_def queue_def push_def MAX_QUEUE_def nat_add_distrib)
  next
    case False
    then show ?thesis using n by (simp add: queue_floor_def queue_def push_def MAX_QUEUE_def)
  qed
  show "queue_ok (queue_floor car fnum)"
    using n by (simp add: queue_floor_def queue_ok_def MAX_QUEUE_def)
qed

lemma shift_from_take:
  "1 \<le> i \<Longrightarrow> i \<le> nat len \<Longrightarrow> nat len \<le> length qa \<Longrightarrow>
   length (shift_from qa len i) = length qa \<and>
   take (nat len - 1) (shift_from qa len i) = take (i - 1) qa @ drop i (take (nat len) qa)"
proof (induction qa len i rule: shift_from.induct)
  case (1 qa len i)
  define n where "n = nat len"
  show ?case
  proof (cases "int i < len")
    case True
    then have i: "i < n" by (simp add: n_def)
    define qa' where "qa' = qa[i - 1 := qa ! i]"
    have len': "length qa' = length qa" by (simp add: qa'_def)
    have ih: "length (shift_from qa' len (Suc i)) = length qa' \<and>
        take (n - 1) (shift_from qa' len (Suc i)) = take (Suc i - 1) qa' @ drop (Suc i) (take n qa')"
      using "1.IH" [OF True] i "1.prems" unfolding qa'_def n_def by simp
    have t1: "take i qa' = take (i - 1) qa @ [qa ! i]"
    proof -
      from "1.prems"(1) obtain k where k: "i = Suc k" by (cases i) auto
      have "k < length qa" using i "1.prems" k by (simp add: n_def)
      then show ?thesis by (simp add: qa'_def k take_Suc_conv_app_nth)
    qed
    have t2: "drop (Suc i) (take n qa') = drop (Suc i) (take n qa)"
      by (simp add: qa'_def take_update_swap drop_update_cancel)
    have t3: "drop i (take n qa) = qa ! i # drop (Suc i) (take n qa)"
      using i "1.prems" by (simp add: n_def flip: Cons_nth_drop_Suc)
    have "shift_from qa len i = shift_from qa' len (Suc i)"
      using True by (subst shift_from.simps) (simp add: qa'_def)
    then show ?thesis using ih t1 t2 t3 len' by (simp add: n_def)
  next
    case False
    then have "i = n" using "1.prems" by (simp add: n_def)
    then show ?thesis using False by (subst (1 2) shift_from.simps) (simp add: n_def)
  qed
qed

lemma queue_dequeue_floor:
  assumes "queue_ok car"
  shows "queue (dequeue_floor car) = tl (queue car)"
    and "queue_ok (dequeue_floor car)"
proof -
  define n where "n = nat (queue_len car)"
  have n: "n \<le> 32" "length (q car) = 32" "queue_len car = int n"
    using queue_ok_nat [OF assms] by (simp_all add: n_def)
  show "queue (dequeue_floor car) = tl (queue car)"
  proof (cases "n = 0")
    case True
    then show ?thesis using n by (simp add: dequeue_floor_def queue_def)
  next
    case False
    then have "1 \<le> (1::nat)" "1 \<le> nat (queue_len car)" "nat (queue_len car) \<le> length (q car)"
      using n by simp_all
    from shift_from_take [OF this]
    have "take (n - 1) (shift_from (q car) (queue_len car) 1) = drop 1 (take n (q car))"
      using n by simp
    then show ?thesis using False n
      by (simp add: dequeue_floor_def queue_def drop_Suc nat_diff_distrib)
  qed
  show "queue_ok (dequeue_floor car)"
  proof (cases "n = 0")
    case True
    then show ?thesis using assms n by (simp add: dequeue_floor_def)
  next
    case False
    then have "1 \<le> (1::nat)" "1 \<le> nat (queue_len car)" "nat (queue_len car) \<le> length (q car)"
      using n by simp_all
    from shift_from_take [OF this] show ?thesis
      using False n by (simp add: dequeue_floor_def queue_ok_def MAX_QUEUE_def)
  qed
qed

lemma first_in_Suc:
  assumes "i < length xs"
  shows "first_in xs x (Suc i) = (if xs ! i = x \<and> first_in xs x i < 0 then int i else first_in xs x i)"
proof (cases "x \<in> set (take i xs)")
  case True
  then show ?thesis using assms by (simp add: first_in_def take_Suc_conv_app_nth)
next
  case False
  show ?thesis
  proof (cases "xs ! i = x")
    case True
    with False assms have "position xs x = i" by (simp add: position_first)
    then show ?thesis using True False assms by (simp add: first_in_def take_Suc_conv_app_nth)
  next
    case no: False
    then show ?thesis using False assms by (auto simp: first_in_def take_Suc_conv_app_nth)
  qed
qed

lemma find_indexes_first_in:
  "nat (queue_len car) \<le> length (q car) \<Longrightarrow> i \<le> nat (queue_len car) \<Longrightarrow>
   p = (first_in (queue car) s i, first_in (queue car) d i) \<Longrightarrow>
   find_indexes car s d i p =
     (first_in (queue car) s (nat (queue_len car)), first_in (queue car) d (nat (queue_len car)))"
proof (induction car s d i p rule: find_indexes.induct)
  case (1 car s d i si di)
  show ?case
  proof (cases "int i < queue_len car")
    case True
    then have i: "i < nat (queue_len car)" by simp
    then have il: "i < length (queue car)" using "1.prems" by (simp add: queue_def)
    have e: "queue car ! i = q car ! i" using i by (simp add: queue_def)
    from "1.prems"(3) have si: "si = first_in (queue car) s i" and di: "di = first_in (queue car) d i"
      by simp_all
    have "find_indexes car s d (Suc i)
            (if q car ! i = s \<and> si < 0 then int i else si,
             if q car ! i = d \<and> di < 0 then int i else di) =
          (first_in (queue car) s (nat (queue_len car)), first_in (queue car) d (nat (queue_len car)))"
    proof (rule "1.IH" [OF True "1.prems"(1)])
      show "Suc i \<le> nat (queue_len car)" using i by simp
      show "(if q car ! i = s \<and> si < 0 then int i else si,
             if q car ! i = d \<and> di < 0 then int i else di) =
            (first_in (queue car) s (Suc i), first_in (queue car) d (Suc i))"
        using first_in_Suc [OF il, of s] first_in_Suc [OF il, of d] e si di by simp
    qed
    then show ?thesis using True by (subst find_indexes.simps) simp
  next
    case False
    then have "i = nat (queue_len car)" using "1.prems" by simp
    then show ?thesis using False "1.prems"(3) by (subst find_indexes.simps) simp
  qed
qed

lemma find_indexes_queue:
  assumes "queue_ok car"
  shows "find_indexes car s d 0 (- 1, - 1) =
     (if s \<in> set (queue car) then int (position (queue car) s) else - 1,
      if d \<in> set (queue car) then int (position (queue car) d) else - 1)"
proof -
  have n: "nat (queue_len car) \<le> length (q car)" using queue_ok_nat [OF assms] by simp
  have l: "length (queue car) = nat (queue_len car)" using assms by (rule length_queue)
  have "find_indexes car s d 0 (- 1, - 1) =
     (first_in (queue car) s (nat (queue_len car)), first_in (queue car) d (nat (queue_len car)))"
    by (rule find_indexes_first_in [OF n]) (simp_all add: first_in_def)
  then show ?thesis using l by (simp add: first_in_def)
qed

lemma queue_enqueue:
  assumes "queue_ok car"
  shows "queue (enqueue car s d) = enqueue_list (queue car) s d"
    and "queue_ok (enqueue car s d)"
proof -
  define car1 where "car1 = (if \<not> in_queue car s then queue_floor car s else car)"
  define xs1 where "xs1 = (if s \<in> set (queue car) then queue car else push (queue car) s)"
  have ok1: "queue_ok car1"
    using assms queue_queue_floor(2) [OF assms] by (simp add: car1_def)
  have q1: "queue car1 = xs1"
    using in_queue_iff [OF assms] queue_queue_floor(1) [OF assms] by (simp add: car1_def xs1_def)
  note fi = find_indexes_queue [OF ok1, of s d, unfolded q1]
  define k where "k = position xs1 d"
  define car2 where "car2 = car1\<lparr>q := shift_from (q car1) (queue_len car1) (nat (int k + 1)),
                          queue_len := queue_len car1 - 1\<rparr>"
  have removal: "queue car2 = remove1 d xs1 \<and> queue_ok car2 \<and> queue_len car2 < MAX_QUEUE"
    if d: "d \<in> set xs1"
  proof -
    have n: "nat (queue_len car1) \<le> 32" "length (q car1) = 32"
      "queue_len car1 = int (nat (queue_len car1))"
      using queue_ok_nat [OF ok1] by simp_all
    have l: "length xs1 = nat (queue_len car1)" using length_queue [OF ok1] q1 by simp
    have kl: "k < nat (queue_len car1)" using d l position_less_iff [of xs1 d] by (simp add: k_def)
    have "1 \<le> Suc k" "Suc k \<le> nat (queue_len car1)" "nat (queue_len car1) \<le> length (q car1)"
      using kl n by simp_all
    from shift_from_take [OF this]
    have sh: "length (shift_from (q car1) (queue_len car1) (Suc k)) = 32"
      "take (nat (queue_len car1) - 1) (shift_from (q car1) (queue_len car1) (Suc k)) =
         take k (q car1) @ drop (Suc k) (take (nat (queue_len car1)) (q car1))"
      using n by simp_all
    have "take k (q car1) = take k xs1"
      using kl q1 [symmetric] by (simp add: queue_def min_def)
    moreover have "take (nat (queue_len car1)) (q car1) = xs1"
      using q1 by (simp add: queue_def)
    ultimately have "take (nat (queue_len car1) - 1) (shift_from (q car1) (queue_len car1) (Suc k)) =
        remove1 d xs1"
      using sh(2) remove1_position [OF d] by (simp add: k_def)
    moreover have "nat (int k + 1) = Suc k" by simp
    moreover have "nat (queue_len car1 - 1) = nat (queue_len car1) - 1" using n by simp
    ultimately have 1: "queue car2 = remove1 d xs1"
      by (simp add: car2_def queue_def)
    have 2: "queue_ok car2 \<and> queue_len car2 < MAX_QUEUE"
      using sh(1) n kl \<open>nat (int k + 1) = Suc k\<close>
      by (auto simp add: car2_def queue_ok_def MAX_QUEUE_def)
    from 1 2 show ?thesis by simp
  qed
  show "queue (enqueue car s d) = enqueue_list (queue car) s d"
  proof (cases "s = d")
    case True
    then show ?thesis by (simp add: enqueue_def enqueue_list_def)
  next
    case False
    show ?thesis
    proof (cases "d \<in> set xs1 \<and> s \<in> set xs1 \<and> position xs1 d < position xs1 s")
      case True
      then have r: "queue car2 = remove1 d xs1" "queue_ok car2" "queue_len car2 < MAX_QUEUE"
        using removal by simp_all
      have "queue (queue_floor car2 d) = remove1 d xs1 @ [d]"
        using queue_queue_floor(1) [OF r(2), of d] r(1,3) length_queue [OF r(2)]
        by (simp add: push_def MAX_QUEUE_def)
      then show ?thesis using False True fi
        by (simp add: enqueue_def enqueue_list_def Let_def car1_def [symmetric] xs1_def [symmetric]
            car2_def k_def)
    next
      case nb: False
      show ?thesis
      proof (cases "d \<in> set xs1")
        case True
        then show ?thesis using False nb fi q1
          by (auto simp add: enqueue_def enqueue_list_def Let_def car1_def [symmetric]
              xs1_def [symmetric])
      next
        case nd: False
        then show ?thesis using False fi q1 queue_queue_floor(1) [OF ok1, of d]
          by (simp add: enqueue_def enqueue_list_def Let_def car1_def [symmetric]
              xs1_def [symmetric])
      qed
    qed
  qed
  show "queue_ok (enqueue car s d)"
  proof (cases "s = d")
    case True
    then show ?thesis using assms by (simp add: enqueue_def)
  next
    case False
    show ?thesis
    proof (cases "d \<in> set xs1 \<and> s \<in> set xs1 \<and> position xs1 d < position xs1 s")
      case True
      then have r: "queue_ok car2" using removal by simp
      show ?thesis using False True fi queue_queue_floor(2) [OF r, of d]
        by (simp add: enqueue_def Let_def car1_def [symmetric] car2_def k_def)
    next
      case nb: False
      show ?thesis using False nb fi ok1 queue_queue_floor(2) [OF ok1, of d]
        by (auto simp add: enqueue_def Let_def car1_def [symmetric])
    qed
  qed
qed

section \<open>The per-car queue: order, duplicates, bound\<close>

lemma distinct_enqueue_list: "distinct xs \<Longrightarrow> distinct (enqueue_list xs s d)"
  by (auto simp: enqueue_list_def Let_def push_def)

lemma position_neq:
  "x \<in> set xs \<Longrightarrow> y \<in> set xs \<Longrightarrow> x \<noteq> y \<Longrightarrow> position xs x \<noteq> position xs y"
  using nth_position [of x xs] nth_position [of y xs] by auto

lemma enqueue_list_order:
  assumes "distinct xs" "s \<noteq> d"
    and "s \<in> set (enqueue_list xs s d)" "d \<in> set (enqueue_list xs s d)"
  shows "position (enqueue_list xs s d) s < position (enqueue_list xs s d) d"
proof -
  define xs1 where "xs1 = (if s \<in> set xs then xs else push xs s)"
  have d1: "distinct xs1" using assms(1) by (simp add: xs1_def push_def)
  show ?thesis
  proof (cases "d \<in> set xs1 \<and> s \<in> set xs1 \<and> position xs1 d < position xs1 s")
    case True
    then have e: "enqueue_list xs s d = remove1 d xs1 @ [d]"
      using assms(2) by (simp add: enqueue_list_def xs1_def [symmetric])
    have "s \<in> set (remove1 d xs1)" using True assms(2) by simp
    moreover have "d \<notin> set (remove1 d xs1)" using d1 by simp
    ultimately show ?thesis
      using position_less_iff [of "remove1 d xs1" s]
      by (simp add: e position_append_in position_append_last)
  next
    case nb: False
    show ?thesis
    proof (cases "d \<in> set xs1")
      case True
      then have e: "enqueue_list xs s d = xs1"
        using assms(2) nb by (auto simp add: enqueue_list_def xs1_def [symmetric])
      then have "s \<in> set xs1" using assms(3) by simp
      with True nb assms(2) position_neq [of s xs1 d] show ?thesis by (auto simp: e)
    next
      case False
      then have e: "enqueue_list xs s d = push xs1 d"
        using assms(2) by (simp add: enqueue_list_def xs1_def [symmetric])
      with assms(4) False have p: "push xs1 d = xs1 @ [d]" by (auto simp: push_def split: if_splits)
      with assms(3) e assms(2) have "s \<in> set xs1" by auto
      then show ?thesis using False position_less_iff [of xs1 s]
        by (simp add: e p position_append_in position_append_last)
    qed
  qed
qed

lemma enqueue_list_room:
  assumes "s \<noteq> d"
    and "length xs + (if s \<in> set xs then 0 else 1) + (if d \<in> set xs then 0 else 1) \<le> 32"
  shows "s \<in> set (enqueue_list xs s d) \<and> d \<in> set (enqueue_list xs s d)"
  using assms by (auto simp: enqueue_list_def Let_def push_def split: if_splits)

lemma enqueue_list_idem:
  assumes "distinct xs"
  shows "enqueue_list (enqueue_list xs s d) s d = enqueue_list xs s d"
proof (cases "s = d")
  case True
  then show ?thesis by (simp add: enqueue_list_def)
next
  case False
  define xs1 where "xs1 = (if s \<in> set xs then xs else push xs s)"
  have d1: "distinct xs1" using assms(1) by (simp add: xs1_def push_def)
  show ?thesis
  proof (cases "d \<in> set xs1 \<and> s \<in> set xs1 \<and> position xs1 d < position xs1 s")
    case True
    then have e: "enqueue_list xs s d = remove1 d xs1 @ [d]"
      using False by (simp add: enqueue_list_def xs1_def [symmetric])
    have a: "s \<in> set (remove1 d xs1)" using True False by simp
    have b: "d \<notin> set (remove1 d xs1)" using d1 by simp
    have "position (remove1 d xs1 @ [d]) s < position (remove1 d xs1 @ [d]) d"
      using a b position_less_iff [of "remove1 d xs1" s]
      by (simp add: position_append_in position_append_last)
    then show ?thesis using a False unfolding e
      by (simp add: enqueue_list_def)
  next
    case nb: False
    show ?thesis
    proof (cases "d \<in> set xs1")
      case True
      then have e: "enqueue_list xs s d = xs1"
        using False nb by (auto simp add: enqueue_list_def xs1_def [symmetric])
      have "enqueue_list xs1 s d = xs1"
      proof (cases "s \<in> set xs1")
        case True
        then show ?thesis using False nb \<open>d \<in> set xs1\<close> by (auto simp: enqueue_list_def)
      next
        case ns: False
        then have "push xs1 s = xs1" by (auto simp: xs1_def push_def split: if_splits)
        then show ?thesis using False ns \<open>d \<in> set xs1\<close> by (simp add: enqueue_list_def)
      qed
      then show ?thesis by (simp add: e)
    next
      case nd: False
      then have e: "enqueue_list xs s d = push xs1 d"
        using False by (simp add: enqueue_list_def xs1_def [symmetric])
      show ?thesis
      proof (cases "length xs1 < 32")
        case True
        then have p: "push xs1 d = xs1 @ [d]" by (simp add: push_def)
        have s1: "s \<in> set xs1" using True by (auto simp: xs1_def push_def split: if_splits)
        have "position (xs1 @ [d]) s < position (xs1 @ [d]) d"
          using s1 nd position_less_iff [of xs1 s]
          by (simp add: position_append_in position_append_last)
        then show ?thesis using s1 False unfolding e p by (simp add: enqueue_list_def)
      next
        case full: False
        then have p: "push xs1 d = xs1" by (simp add: push_def)
        have ps: "push xs1 s = xs1" using full by (simp add: push_def)
        show ?thesis unfolding e p using False nd p ps by (simp add: enqueue_list_def)
      qed
    qed
  qed
qed

lemma reachable_inv: "reachable car \<Longrightarrow> queue_ok car \<and> distinct (queue car)"
proof (induction rule: reachable.induct)
  case (registered car)
  then show ?case by (simp add: queue_ok_def queue_def MAX_QUEUE_def)
next
  case (enqueued car s d)
  then show ?case using queue_enqueue [of car s d] by (simp add: distinct_enqueue_list)
next
  case (dequeued car)
  then show ?case using queue_dequeue_floor [of car] by (simp add: distinct_tl)
qed

lemma enqueue_list_fixed:
  assumes "distinct xs" "s \<noteq> d" "enqueue_list xs s d = xs"
  shows "(s \<in> set xs \<or> \<not> length xs < 32) \<and>
         \<not> (d \<in> set xs \<and> s \<in> set xs \<and> position xs d < position xs s) \<and>
         (d \<in> set xs \<or> \<not> length xs < 32)"
proof -
  have 1: "s \<in> set xs \<or> \<not> length xs < 32"
  proof (rule ccontr)
    assume "\<not> ?thesis"
    then have "length (enqueue_list xs s d) > length xs"
      using assms(2) by (auto simp: enqueue_list_def Let_def push_def length_remove1)
    with assms(3) show False by simp
  qed
  then have x1: "(if s \<in> set xs then xs else push xs s) = xs" by (auto simp: push_def)
  have 2: "\<not> (d \<in> set xs \<and> s \<in> set xs \<and> position xs d < position xs s)"
  proof
    assume a: "d \<in> set xs \<and> s \<in> set xs \<and> position xs d < position xs s"
    then have "s \<in> set (enqueue_list xs s d)" "d \<in> set (enqueue_list xs s d)"
      using assms(3) by simp_all
    from enqueue_list_order [OF assms(1,2) this] a assms(3) show False by simp
  qed
  have 3: "d \<in> set xs \<or> \<not> length xs < 32"
  proof (rule ccontr)
    assume "\<not> ?thesis"
    then have "enqueue_list xs s d = xs @ [d]"
      using assms(2) x1 by (simp add: enqueue_list_def push_def)
    with assms(3) show False by simp
  qed
  from 1 2 3 show ?thesis by blast
qed

lemma queue_floor_full:
  assumes "queue_ok car" "\<not> length (queue car) < 32"
  shows "queue_floor car f = car"
proof -
  have "32 \<le> nat (queue_len car)" using length_queue [OF assms(1)] assms(2) by simp
  then have "\<not> queue_len car < 32" by linarith
  then show ?thesis by (simp add: queue_floor_def MAX_QUEUE_def)
qed

lemma enqueue_fixed:
  assumes "queue_ok car" "distinct (queue car)" "enqueue_list (queue car) s d = queue car"
  shows "enqueue car s d = car"
proof (cases "s = d")
  case True
  then show ?thesis by (simp add: enqueue_def)
next
  case False
  note f = enqueue_list_fixed [OF assms(2) False assms(3)]
  have c1: "(if \<not> in_queue car s then queue_floor car s else car) = car"
    using f in_queue_iff [OF assms(1)] queue_floor_full [OF assms(1)] by auto
  note fi = find_indexes_queue [OF assms(1), of s d]
  show ?thesis
  proof (cases "d \<in> set (queue car)")
    case True
    then show ?thesis using False f fi c1 by (auto simp: enqueue_def)
  next
    case nd: False
    then have "queue_floor car d = car" using f queue_floor_full [OF assms(1)] by auto
    then show ?thesis using False nd fi c1 by (auto simp: enqueue_def)
  qed
qed

lemma head_cell:
  assumes "queue_ok car" "0 < queue_len car"
  shows "q car ! 0 = hd (queue car)"
proof -
  have "queue car \<noteq> []" using length_queue [OF assms(1)] assms(2) by auto
  then have "hd (queue car) = queue car ! 0" by (rule hd_conv_nth)
  also have "\<dots> = q car ! 0" using assms(2) by (simp add: queue_def)
  finally show ?thesis by simp
qed

lemma queue_empty_iff: "queue_ok car \<Longrightarrow> queue car = [] \<longleftrightarrow> queue_len car \<le> 0"
  using length_queue [of car] by (auto simp: length_0_conv [symmetric] simp del: length_0_conv)

lemma dequeue_floor_frame:
  "dequeue_floor car = car\<lparr>q := q (dequeue_floor car), queue_len := queue_len (dequeue_floor car)\<rparr>"
  by (simp add: dequeue_floor_def)

lemma enqueue_last_slot:
  assumes "queue_ok car" "queue_len car = 31" "s \<noteq> d" "s \<notin> set (queue car)" "d \<notin> set (queue car)"
  shows "queue (enqueue car s d) = queue car @ [s]"
proof -
  have "length (queue car) = 31" using length_queue [OF assms(1)] assms(2) by simp
  then show ?thesis using assms(3-5) queue_enqueue(1) [OF assms(1), of s d]
    by (simp add: enqueue_list_def push_def)
qed

lemma queue_floor_full_len: "queue_len car = 32 \<Longrightarrow> queue_floor car f = car"
  by (simp add: queue_floor_def MAX_QUEUE_def)

lemma full_car_queue:
  "queue full_car =
     [1, 2, 3, 4, 5, 6, 7, 8, 9, 10, 11, 12, 13, 14, 15, 16, 17, 18, 19, 20, 21, 22, 23, 24,
      25, 26, 27, 28, 29, 30, 31, 32]"
  by code_simp

lemma reachable_full_car: "reachable full_car"
  unfolding full_car_def
  by (simp add: empty_car_def reachable.enqueued reachable.registered)

text \<open>
  C4 (as amended). For every call with distinct floors and every queue the
  controller can hold (reached from the empty queue by \<open>enqueue\<close> and
  \<open>dequeue_floor\<close>): if the queue has room for the floors the call adds (its length
  plus the number of the two floors not yet in it is at most 32), both floors are
  in the queue after \<open>enqueue\<close>; and whenever both are in the queue after \<open>enqueue\<close>,
  the source stands at a strictly earlier position than the destination.
\<close>

theorem C4_source_before_destination:
  "reachable car \<and> s \<noteq> d \<longrightarrow>
     (queue_len car + (if in_queue car s then 0 else 1) + (if in_queue car d then 0 else 1) \<le> 32
        \<longrightarrow> s \<in> set (queue (enqueue car s d)) \<and> d \<in> set (queue (enqueue car s d))) \<and>
     (s \<in> set (queue (enqueue car s d)) \<and> d \<in> set (queue (enqueue car s d)) \<longrightarrow>
        position (queue (enqueue car s d)) s < position (queue (enqueue car s d)) d)"
proof (intro impI, elim conjE)
  assume r: "reachable car" and ne: "s \<noteq> d"
  from reachable_inv [OF r] have ok: "queue_ok car" and di: "distinct (queue car)" by simp_all
  note e = queue_enqueue(1) [OF ok, of s d]
  have l: "int (length (queue car)) = queue_len car"
    using length_queue [OF ok] queue_ok_nat [OF ok] by simp
  have room: "s \<in> set (queue (enqueue car s d)) \<and> d \<in> set (queue (enqueue car s d))"
    if "queue_len car + (if in_queue car s then 0 else 1) + (if in_queue car d then 0 else 1)
          \<le> 32"
  proof -
    have "length (queue car) + (if s \<in> set (queue car) then 0 else 1) +
          (if d \<in> set (queue car) then 0 else 1) \<le> 32"
      using that l in_queue_iff [OF ok] by (auto split: if_splits)
    from enqueue_list_room [OF ne this] show ?thesis by (simp add: e)
  qed
  have order: "position (queue (enqueue car s d)) s < position (queue (enqueue car s d)) d"
    if "s \<in> set (queue (enqueue car s d)) \<and> d \<in> set (queue (enqueue car s d))"
    using enqueue_list_order [OF di ne] that by (simp add: e)
  from room order
  show "(queue_len car + (if in_queue car s then 0 else 1) + (if in_queue car d then 0 else 1) \<le> 32
        \<longrightarrow> s \<in> set (queue (enqueue car s d)) \<and> d \<in> set (queue (enqueue car s d))) \<and>
     (s \<in> set (queue (enqueue car s d)) \<and> d \<in> set (queue (enqueue car s d)) \<longrightarrow>
        position (queue (enqueue car s d)) s < position (queue (enqueue car s d)) d)"
    by blast
qed

theorem C4_source_before_destination_witness:
  "queue (enqueue empty_car 7 3) = [7, 3] \<and>
   queue (enqueue (enqueue empty_car 7 3) 3 7) = [3, 7] \<and>
   position (queue (enqueue (enqueue empty_car 7 3) 3 7)) 3
     < position (queue (enqueue (enqueue empty_car 7 3) 3 7)) 7"
proof -
  have r: "reachable (enqueue empty_car 7 3)"
    by (rule reachable.enqueued, rule reachable.registered) (simp_all add: empty_car_def)
  have a: "queue (enqueue empty_car 7 3) = [7, 3]" by code_simp
  have b: "queue (enqueue (enqueue empty_car 7 3) 3 7) = [3, 7]" by code_simp
  have "(3::int) \<in> set (queue (enqueue (enqueue empty_car 7 3) 3 7)) \<and>
        (7::int) \<in> set (queue (enqueue (enqueue empty_car 7 3) 3 7))"
    by (simp add: b)
  with C4_source_before_destination [of "enqueue empty_car 7 3" 3 7] r
  have "position (queue (enqueue (enqueue empty_car 7 3) 3 7)) 3
          < position (queue (enqueue (enqueue empty_car 7 3) 3 7)) 7"
    by simp
  with a b show ?thesis by simp
qed

text \<open>
  C4 as stated fails on a full queue: after the sixteen calls 1 to 2, ..., 31 to 32
  the row of a car serving floors 1 to 200 holds 32 floors; the call from 33 to 34
  is accepted for that car, and \<open>enqueue\<close> puts neither floor into the queue.
\<close>

theorem C4_full_queue_takes_neither_floor:
  "reachable full_car \<and> can_service full_car 33 34 \<and>
   33 \<notin> set (queue (enqueue full_car 33 34)) \<and> 34 \<notin> set (queue (enqueue full_car 33 34))"
proof -
  have "can_service full_car 33 34" by code_simp
  moreover have "queue (enqueue full_car 33 34) = queue full_car" by code_simp
  ultimately show ?thesis using reachable_full_car by (simp add: full_car_queue)
qed

text \<open>
  C5. For every queue the controller can hold, running \<open>enqueue\<close> a second time with
  the same pair, before any dequeue, leaves the row as the first run left it (the
  queue and the cells beyond it), and no floor stands twice in the queue, before
  or after.
\<close>

theorem C5_enqueue_idempotent:
  "reachable car \<longrightarrow>
     enqueue (enqueue car s d) s d = enqueue car s d \<and>
     distinct (queue car) \<and> distinct (queue (enqueue car s d))"
proof
  assume r: "reachable car"
  then have r': "reachable (enqueue car s d)" by (rule reachable.enqueued)
  from reachable_inv [OF r] have ok: "queue_ok car" and di: "distinct (queue car)" by simp_all
  from reachable_inv [OF r'] have ok': "queue_ok (enqueue car s d)"
    and di': "distinct (queue (enqueue car s d))" by simp_all
  have "enqueue_list (queue (enqueue car s d)) s d = queue (enqueue car s d)"
    using queue_enqueue(1) [OF ok] enqueue_list_idem [OF di] by simp
  from enqueue_fixed [OF ok' di' this] di di'
  show "enqueue (enqueue car s d) s d = enqueue car s d \<and>
     distinct (queue car) \<and> distinct (queue (enqueue car s d))"
    by simp
qed

theorem C5_enqueue_idempotent_witness:
  "queue (enqueue nearly_full_car 40 41) = queue nearly_full_car @ [40] \<and>
   enqueue (enqueue nearly_full_car 40 41) 40 41 = enqueue nearly_full_car 40 41 \<and>
   distinct (queue (enqueue nearly_full_car 40 41))"
proof -
  have r: "reachable nearly_full_car"
    unfolding nearly_full_car_def using reachable_full_car by (rule reachable.dequeued)
  have "queue (enqueue nearly_full_car 40 41) = queue nearly_full_car @ [40]" by code_simp
  with C5_enqueue_idempotent [of nearly_full_car 40 41] r show ?thesis by simp
qed

section \<open>Scheduling and call routing\<close>

lemma can_service_covers: "can_service car s d = covers car s d"
  by (auto simp: can_service_def covers_def)

lemma car_selector_find:
  "car_selector g_cars s d = map_option (\<lambda>car. take 31 (name car)) (find (\<lambda>car. covers car s d) g_cars)"
  by (induction g_cars) (auto simp: can_service_covers covers_def)

lemma tcp_call_thread_reply:
  "fst (tcp_call_thread g_cars frame) =
     (case (floor_num_handler (fst (scan_call frame)), floor_num_handler (snd (scan_call frame))) of
        (Some s, Some d) \<Rightarrow>
          if s = d then ''UNAVAILABLE''
          else (case car_selector g_cars s d of
                  Some nm \<Rightarrow> ''CAR '' @ nm
                | None \<Rightarrow> ''UNAVAILABLE'')
      | _ \<Rightarrow> ''UNAVAILABLE'')"
  by (simp add: tcp_call_thread_def Let_def split: prod.splits option.splits)

lemma find_in_set: "find P xs = Some x \<Longrightarrow> x \<in> set xs"
  by (induction xs) (auto split: if_splits)

lemma reply_call_reply:
  assumes "list_all (\<lambda>car. length (name car) \<le> 31) g_cars"
  shows "fst (tcp_call_thread g_cars frame) =
           call_reply g_cars (fst (scan_call frame)) (snd (scan_call frame))"
proof -
  have "take 31 (name car) = name car" if "find P g_cars = Some car" for P car
    using find_in_set [OF that] assms by (simp add: list_all_iff)
  then show ?thesis
    by (auto simp add: tcp_call_thread_reply call_reply_def car_selector_find
        split: option.splits)
qed

lemma scan_word_field:
  assumes "floor_field w" "rest = [] \<or> isspace (hd rest)"
  shows "scan_word 3 (CHR '' '' # w @ rest) = (w, rest)"
proof -
  from assms(1) have w: "w \<noteq> []" "length w \<le> 3" "\<forall>c\<in>set w. \<not> isspace c"
    by (simp_all add: floor_field_def list_all_iff)
  have sp: "isspace CHR '' ''" by (simp add: isspace_def)
  have "\<not> isspace (hd w)" using w by (cases w) auto
  then have d: "dropWhile isspace (CHR '' '' # w @ rest) = w @ rest"
    using sp w(1) by (cases w) auto
  have t: "takeWhile (\<lambda>c. \<not> isspace c) (w @ rest) = w"
  proof (cases rest)
    case Nil
    then show ?thesis using w(3) by (simp add: takeWhile_eq_all_conv)
  next
    case (Cons r rs)
    with assms(2) have "isspace r" by simp
    then show ?thesis using w(3) Cons by (simp add: takeWhile_tail takeWhile_eq_all_conv)
  qed
  show ?thesis unfolding scan_word_def Let_def d t using w(2) by simp
qed

lemma scan_call_fields:
  assumes "floor_field a" "floor_field b"
  shows "scan_call (''CALL '' @ a @ '' '' @ b) = (a, b)"
proof -
  have 1: "scan_word 3 (CHR '' '' # a @ (CHR '' '' # b)) = (a, CHR '' '' # b)"
    by (rule scan_word_field [OF assms(1)]) (simp add: isspace_def)
  have 2: "scan_word 3 (CHR '' '' # b @ []) = (b, [])"
    by (rule scan_word_field [OF assms(2)]) simp
  have "a \<noteq> []" using assms(1) by (simp add: floor_field_def)
  then show ?thesis using 1 2 by (simp add: scan_call_def)
qed

text \<open>
  C6. The scheduler works on the row that \<open>update_status\<close> has just filled from the
  STATUS frame. With a non-empty queue it removes the head exactly when the
  reported status is \<open>Opening\<close> and the reported current floor is the head's label;
  if the queue is non-empty afterwards it sends \<open>FLOOR\<close> with the label of the head
  it now has, and nothing otherwise; with an empty queue it changes nothing and
  sends nothing. No field of the row but the queue changes.
\<close>

theorem C6_scheduler_dequeues_and_sends:
  "queue_ok car \<longrightarrow>
     (queue car \<noteq> [] \<longrightarrow>
        queue (fst (car_scheduler_handler car)) =
          (if reg_status car = ''Opening'' \<and> reg_cur_floor car = index_handler (hd (queue car))
           then tl (queue car) else queue car)) \<and>
     (queue (fst (car_scheduler_handler car)) \<noteq> [] \<longrightarrow>
        snd (car_scheduler_handler car) =
          [''FLOOR '' @ index_handler (hd (queue (fst (car_scheduler_handler car))))]) \<and>
     (queue (fst (car_scheduler_handler car)) = [] \<longrightarrow> snd (car_scheduler_handler car) = []) \<and>
     (queue car = [] \<longrightarrow> car_scheduler_handler car = (car, [])) \<and>
     fst (car_scheduler_handler car) =
       car\<lparr>q := q (fst (car_scheduler_handler car)),
           queue_len := queue_len (fst (car_scheduler_handler car))\<rparr>"
proof
  assume ok: "queue_ok car"
  define car1 where "car1 = fst (car_scheduler_handler car)"
  have c1: "car1 = (if queue_len car > 0 \<and> reg_status car = ''Opening'' \<and>
                       reg_cur_floor car = index_handler (q car ! 0)
                    then dequeue_floor car else car)"
    by (simp add: car1_def car_scheduler_handler_def Let_def)
  have out: "snd (car_scheduler_handler car) = (if queue_len car1 > 0 then send_car car1 else [])"
    by (simp add: car1_def car_scheduler_handler_def Let_def)
  have ok1: "queue_ok car1" using ok queue_dequeue_floor(2) [OF ok] by (simp add: c1)
  have a: "queue car1 =
          (if reg_status car = ''Opening'' \<and> reg_cur_floor car = index_handler (hd (queue car))
           then tl (queue car) else queue car)" if "queue car \<noteq> []"
  proof -
    from that have "0 < queue_len car" using queue_empty_iff [OF ok] by simp
    then show ?thesis using head_cell [OF ok] queue_dequeue_floor(1) [OF ok] by (simp add: c1)
  qed
  have b: "snd (car_scheduler_handler car) = [''FLOOR '' @ index_handler (hd (queue car1))]"
    if "queue car1 \<noteq> []"
  proof -
    from that have "0 < queue_len car1" using queue_empty_iff [OF ok1] by simp
    then show ?thesis using head_cell [OF ok1] by (simp add: out send_car_def)
  qed
  have c: "snd (car_scheduler_handler car) = []" if "queue car1 = []"
    using that queue_empty_iff [OF ok1] by (simp add: out)
  have d: "car_scheduler_handler car = (car, [])" if "queue car = []"
    using that queue_empty_iff [OF ok] by (simp add: car_scheduler_handler_def)
  have e: "car1 = car\<lparr>q := q car1, queue_len := queue_len car1\<rparr>"
    using dequeue_floor_frame [of car] by (simp add: c1)
  from a b c d e
  show "(queue car \<noteq> [] \<longrightarrow>
        queue (fst (car_scheduler_handler car)) =
          (if reg_status car = ''Opening'' \<and> reg_cur_floor car = index_handler (hd (queue car))
           then tl (queue car) else queue car)) \<and>
     (queue (fst (car_scheduler_handler car)) \<noteq> [] \<longrightarrow>
        snd (car_scheduler_handler car) =
          [''FLOOR '' @ index_handler (hd (queue (fst (car_scheduler_handler car))))]) \<and>
     (queue (fst (car_scheduler_handler car)) = [] \<longrightarrow> snd (car_scheduler_handler car) = []) \<and>
     (queue car = [] \<longrightarrow> car_scheduler_handler car = (car, [])) \<and>
     fst (car_scheduler_handler car) =
       car\<lparr>q := q (fst (car_scheduler_handler car)),
           queue_len := queue_len (fst (car_scheduler_handler car))\<rparr>"
    unfolding car1_def [symmetric] by blast
qed

theorem C6_scheduler_dequeues_and_sends_witness:
  "queue opening_car = [7, 3] \<and>
   queue (fst (car_scheduler_handler opening_car)) = [3] \<and>
   snd (car_scheduler_handler opening_car) = [''FLOOR 3''] \<and>
   car_scheduler_handler empty_car = (empty_car, [])"
proof -
  have ok: "queue_ok opening_car" "queue_ok empty_car" by code_simp+
  have a: "queue opening_car = [7, 3]" by code_simp
  have b: "reg_status opening_car = ''Opening''" "reg_cur_floor opening_car = ''7''"
    by (simp_all add: opening_car_def)
  have i: "index_handler 7 = ''7''" "index_handler 3 = ''3''" by code_simp+
  have e: "queue empty_car = []" by (simp add: queue_def empty_car_def)
  from C6_scheduler_dequeues_and_sends [of opening_car] ok(1) a b i
  have 1: "queue (fst (car_scheduler_handler opening_car)) = [3]" by simp
  from C6_scheduler_dequeues_and_sends [of opening_car] ok(1) 1 i
  have 2: "snd (car_scheduler_handler opening_car) = [''FLOOR 3'']" by simp
  from C6_scheduler_dequeues_and_sends [of empty_car] ok(2) e
  have 3: "car_scheduler_handler empty_car = (empty_car, [])" by blast
  from a 1 2 3 show ?thesis by simp
qed

text \<open>
  On the two floor fields that its \<open>sscanf\<close> extracts, of at most three characters
  each, the controller's reply is the routing rule: \<open>UNAVAILABLE\<close> if either does
  not parse or both parse to the same index, otherwise \<open>CAR\<close> with the name of the
  first row in slot order that is in use and whose range holds both indices, or
  \<open>UNAVAILABLE\<close> when there is none. For a frame \<open>CALL a b\<close> whose fields have one to
  three characters these are the frame's own fields. Registered names have at most
  31 characters.
\<close>

lemma call_routing_on_fields:
  "list_all (\<lambda>car. length (name car) \<le> 31) g_cars \<Longrightarrow>
     fst (tcp_call_thread g_cars frame) =
       call_reply g_cars (fst (scan_call frame)) (snd (scan_call frame)) \<and>
     (floor_field a \<and> floor_field b \<longrightarrow>
        fst (tcp_call_thread g_cars (''CALL '' @ a @ '' '' @ b)) = call_reply g_cars a b)"
  using reply_call_reply [of g_cars] scan_call_fields [of a b] by simp

text \<open>
  C7. The claim: the reply to \<open>CALL src dst\<close> is \<open>UNAVAILABLE\<close> if either floor does
  not parse or both are the same floor, and otherwise names the first car in use
  whose range holds both floors. The code does otherwise when a floor field has
  more than three characters, because its \<open>%3s\<close> conversions cut the field and read
  the remainder as the next field. In \<open>CALL 1234 5\<close> the source does not parse, so
  the rule gives \<open>UNAVAILABLE\<close>; the controller reads 123 and 4 and assigns car A,
  which serves floors 1 to 200. In \<open>CALL 0012 5\<close>, which the call client sends for
  the floors 12 and 5, the rule assigns a car A serving floors 5 to 20; the
  controller reads 001 and 2 and replies \<open>UNAVAILABLE\<close>.
\<close>

theorem C7_long_field_is_split:
  "floor_num_handler ''1234'' = None \<and>
   call_reply (registry empty_car) ''1234'' ''5'' = ''UNAVAILABLE'' \<and>
   scan_call ''CALL 1234 5'' = (''123'', ''4'') \<and>
   fst (tcp_call_thread (registry empty_car) ''CALL 1234 5'') = ''CAR A'' \<and>
   floor_num_handler ''0012'' = Some 12 \<and>
   call_reply (registry (empty_car\<lparr>lowest_floor := 5, highest_floor := 20\<rparr>)) ''0012'' ''5''
     = ''CAR A'' \<and>
   scan_call ''CALL 0012 5'' = (''001'', ''2'') \<and>
   fst (tcp_call_thread (registry (empty_car\<lparr>lowest_floor := 5, highest_floor := 20\<rparr>))
          ''CALL 0012 5'') = ''UNAVAILABLE''"
  by code_simp

theorem C7_long_field_is_split_witness:
  "fst (tcp_call_thread (registry empty_car) ''CALL 1234 5'') = ''CAR A'' \<and>
   call_reply (registry empty_car) ''1234'' ''5'' = ''UNAVAILABLE''"
  using C7_long_field_is_split by simp

lemma enqueue_full:
  assumes "queue_ok car" "queue_len car = 32" "s \<notin> set (queue car)" "d \<notin> set (queue car)"
  shows "queue (enqueue car s d) = queue car"
proof -
  have "length (queue car) = 32" using length_queue [OF assms(1)] assms(2) by simp
  then show ?thesis using assms(3,4) queue_enqueue(1) [OF assms(1), of s d]
    by (simp add: enqueue_list_def push_def)
qed

text \<open>
  C10. Every queue operation keeps the queue length between 0 and 32 (and the
  array at its 32 cells). \<open>queue_floor\<close> on a queue of 32 floors returns the row
  as it is, and nothing reports the floor as lost: the reply \<open>CAR name\<close> to the
  caller depends on the selected car only, not on its queue. So when one cell is
  free and neither floor of a call is queued, the source takes the last cell, the
  queue is full, and the destination is dropped; a queue of 32 floors takes
  neither.
\<close>

theorem C10_queue_bounded_and_silent_drop:
  "queue_ok car \<longrightarrow>
     queue_ok (queue_floor car f) \<and> queue_ok (dequeue_floor car) \<and> queue_ok (enqueue car s d) \<and>
     (queue_len car = 32 \<longrightarrow> queue_floor car f = car) \<and>
     (queue_len car = 31 \<and> s \<noteq> d \<and> s \<notin> set (queue car) \<and> d \<notin> set (queue car) \<longrightarrow>
        queue (enqueue car s d) = queue car @ [s]) \<and>
     (queue_len car = 32 \<and> s \<notin> set (queue car) \<and> d \<notin> set (queue car) \<longrightarrow>
        queue (enqueue car s d) = queue car) \<and>
     (floor_num_handler (fst (scan_call frame)) = Some s \<and>
      floor_num_handler (snd (scan_call frame)) = Some d \<and> s \<noteq> d \<and>
      car_selector g_cars s d = Some nm \<longrightarrow>
        fst (tcp_call_thread g_cars frame) = ''CAR '' @ nm)"
  using queue_queue_floor(2) [of car f] queue_dequeue_floor(2) [of car]
    queue_enqueue(2) [of car s d] queue_floor_full_len [of car f] enqueue_last_slot [of car s d]
    enqueue_full [of car s d] tcp_call_thread_reply [of g_cars frame]
  by (auto split: prod.splits)

theorem C10_queue_bounded_and_silent_drop_witness:
  "queue_len nearly_full_car = 31 \<and>
   fst (tcp_call_thread (registry nearly_full_car) ''CALL 40 41'') = ''CAR A'' \<and>
   queue (enqueue nearly_full_car 40 41) = queue nearly_full_car @ [40] \<and>
   queue (fst (snd (tcp_call_thread (registry nearly_full_car) ''CALL 40 41'')) ! 1) =
     queue nearly_full_car @ [40] \<and>
   queue_ok (enqueue nearly_full_car 40 41) \<and>
   queue_floor (enqueue nearly_full_car 40 41) 41 = enqueue nearly_full_car 40 41"
proof -
  have ok: "queue_ok nearly_full_car"
    using reachable_inv [of nearly_full_car] reachable_full_car
    by (simp add: nearly_full_car_def reachable.dequeued)
  have l: "queue_len nearly_full_car = 31" by code_simp
  have n: "(40::int) \<noteq> 41 \<and> 40 \<notin> set (queue nearly_full_car) \<and> 41 \<notin> set (queue nearly_full_car)"
    by code_simp
  have p: "floor_num_handler (fst (scan_call ''CALL 40 41'')) = Some 40 \<and>
           floor_num_handler (snd (scan_call ''CALL 40 41'')) = Some 41 \<and>
           car_selector (registry nearly_full_car) 40 41 = Some ''A''"
    by code_simp
  have t: "queue (fst (snd (tcp_call_thread (registry nearly_full_car) ''CALL 40 41'')) ! 1) =
     queue nearly_full_car @ [40]"
    by code_simp
  from C10_queue_bounded_and_silent_drop
    [of nearly_full_car 41 40 41 "''CALL 40 41''" "registry nearly_full_car" "''A''"] ok l n p
  have 1: "queue_ok (enqueue nearly_full_car 40 41) \<and>
      queue (enqueue nearly_full_car 40 41) = queue nearly_full_car @ [40] \<and>
      fst (tcp_call_thread (registry nearly_full_car) ''CALL 40 41'') = ''CAR A''"
    by simp
  have l2: "queue_len (enqueue nearly_full_car 40 41) = 32" by code_simp
  from C10_queue_bounded_and_silent_drop [of "enqueue nearly_full_car 40 41" 41] 1 l2
  have 2: "queue_floor (enqueue nearly_full_car 40 41) 41 = enqueue nearly_full_car 40 41"
    by blast
  from l t 1 2 show ?thesis by simp
qed

end
